theory Spec2Isabelle
  imports Main "HOL-Library.Word" "HOL-Library.Multiset"
begin

section \<open>SSR generation pass: the model\<close>

text \<open>
  A shallow embedding of \<^verbatim>\<open>llvm/lib/Transforms/SSR/SSRGeneration.cpp\<close>.
  Pointers to loops, affine accesses and instructions are identifiers. The \<^verbatim>\<open>int\<close>
  values of the gain estimate and the \<^verbatim>\<open>unsigned\<close> values of the conflict tree are 32-bit
  words (an \<^verbatim>\<open>int\<close> is read with \<open>sint\<close>); dimensions, indices and the data mover
  index, which only count, are natural numbers, and the two subtractions \<^verbatim>\<open>dim - 1U\<close> and
  \<^verbatim>\<open>n_reps - 1U\<close> are made on words. A failed \<^verbatim>\<open>assert\<close>, an \<^verbatim>\<open>llvm_unreachable\<close> and
  a lookup that dereferences \<^verbatim>\<open>end()\<close> are the value \<open>None\<close>.
\<close>

type_synonym LoopId = nat
type_synonym AccId = nat
type_synonym InstId = nat
type_synonym u32 = "32 word"
type_synonym i32 = "32 word"

definition NUM_SSR :: nat where "NUM_SSR = 3"
definition SSR_MAX_DIM :: nat where "SSR_MAX_DIM = 4"
definition SSR_SCRATCHPAD_BEGIN :: nat where "SSR_SCRATCHPAD_BEGIN = 0x100000"
definition SSR_SCRATCHPAD_END :: nat where "SSR_SCRATCHPAD_END = 0x120000"
definition EST_LOOP_TC :: i32 where "EST_LOOP_TC = 25"
definition EST_MUL_COST :: i32 where "EST_MUL_COST = 3"
definition EST_MEMOP_COST :: i32 where "EST_MEMOP_COST = 2"

subsection \<open>ConflictTree\<close>

text \<open>
  \<^verbatim>\<open>DenseMap::insert\<close> leaves the map as it is when the key is already there.
\<close>

definition dm_insert :: "'k \<Rightarrow> 'v \<Rightarrow> ('k \<rightharpoonup> 'v) \<Rightarrow> ('k \<rightharpoonup> 'v)" where
  "dm_insert k v m = (case m k of None \<Rightarrow> m(k \<mapsto> v) | Some _ \<Rightarrow> m)"

record ConflictTree =
  "values" :: "LoopId \<rightharpoonup> u32"
  children :: "LoopId \<rightharpoonup> LoopId list"
  Root :: "LoopId option"

definition emptyTree :: ConflictTree where
  "emptyTree = \<lparr>values = Map.empty, children = Map.empty, Root = None\<rparr>"

text \<open>
  \<^verbatim>\<open>insertNode(Node, value, Parent)\<close>: the three assertions are the three \<open>None\<close>
  results. The parent is looked up after \<^verbatim>\<open>Node\<close> has been entered in \<^verbatim>\<open>children\<close>.
\<close>

definition insertNode :: "LoopId \<Rightarrow> u32 \<Rightarrow> LoopId option \<Rightarrow> ConflictTree \<Rightarrow> ConflictTree option" where
  "insertNode Node val Parent T =
     (if \<not> (values T Node = None \<or> children T Node = None) then None
      else
        let T1 = T\<lparr>values := dm_insert Node val (values T),
                    children := dm_insert Node [] (children T)\<rparr>
        in case Parent of
             None \<Rightarrow> (if Root T1 \<noteq> None then None else Some (T1\<lparr>Root := Some Node\<rparr>))
           | Some p \<Rightarrow>
               (case children T1 p of
                  None \<Rightarrow> None
                | Some cs \<Rightarrow> Some (T1\<lparr>children := (children T1)(p \<mapsto> cs @ [Node])\<rparr>)))"

text \<open>
  The loop \<^verbatim>\<open>for (C : chs) val = combineFunc(val, findBest(C, combineFunc, res))\<close> of the
  private \<^verbatim>\<open>findBest\<close>; \<open>rec\<close> is the recursive call.
\<close>

fun for_children ::
  "(LoopId \<Rightarrow> LoopId list \<Rightarrow> (u32 \<times> LoopId list) option) \<Rightarrow> (u32 \<Rightarrow> u32 \<Rightarrow> u32) \<Rightarrow>
   LoopId list \<Rightarrow> u32 \<Rightarrow> LoopId list \<Rightarrow> (u32 \<times> LoopId list) option" where
  "for_children rec combineFunc [] val res = Some (val, res)"
| "for_children rec combineFunc (C # chs) val res =
     (case rec C res of
        None \<Rightarrow> None
      | Some (r, res') \<Rightarrow> for_children rec combineFunc chs (combineFunc val r) res')"

text \<open>
  The private, recursive \<^verbatim>\<open>findBest(N, combineFunc, res)\<close>. The recursion follows the
  \<^verbatim>\<open>children\<close> map, which need not be well-founded, so the model carries fuel: \<open>None\<close> is
  a missing map entry or the end of the fuel. The result pairs the returned value with
  the vector \<^verbatim>\<open>res\<close> as the call leaves it.
\<close>

primrec findBest_rec ::
  "nat \<Rightarrow> ConflictTree \<Rightarrow> (u32 \<Rightarrow> u32 \<Rightarrow> u32) \<Rightarrow> LoopId \<Rightarrow> LoopId list \<Rightarrow>
   (u32 \<times> LoopId list) option" where
  "findBest_rec 0 T combineFunc N res = None"
| "findBest_rec (Suc k) T combineFunc N res =
     (case children T N of
        None \<Rightarrow> None
      | Some chs \<Rightarrow>
          (case for_children (findBest_rec k T combineFunc) combineFunc chs 0 res of
             None \<Rightarrow> None
           | Some (val, res') \<Rightarrow>
               (case values T N of
                  None \<Rightarrow> None
                | Some nval \<Rightarrow>
                    if val > nval then Some (val, res')
                    else Some (nval, take (length res) res' @ [N]))))"

definition findBest :: "nat \<Rightarrow> ConflictTree \<Rightarrow> (u32 \<Rightarrow> u32 \<Rightarrow> u32) \<Rightarrow> LoopId list option" where
  "findBest fuel T combineFunc =
     (case Root T of
        None \<Rightarrow> Some []
      | Some r \<Rightarrow> map_option snd (findBest_rec fuel T combineFunc r []))"

text \<open>A conflict tree is what a sequence of \<^verbatim>\<open>insertNode\<close> calls builds.\<close>

fun buildTree :: "(LoopId \<times> u32 \<times> LoopId option) list \<Rightarrow> ConflictTree \<Rightarrow> ConflictTree option" where
  "buildTree [] T = Some T"
| "buildTree ((n, v, p) # ins) T =
     (case insertNode n v p T of None \<Rightarrow> None | Some T' \<Rightarrow> buildTree ins T')"

text \<open>
  \<open>isAncestor T a b\<close>: \<open>b\<close> is reached from \<open>a\<close> by one or more steps along the
  \<^verbatim>\<open>children\<close> map.
\<close>

inductive isAncestor :: "ConflictTree \<Rightarrow> LoopId \<Rightarrow> LoopId \<Rightarrow> bool" for T where
  child: "children T a = Some cs \<Longrightarrow> b \<in> set cs \<Longrightarrow> isAncestor T a b"
| step: "isAncestor T a b \<Longrightarrow> children T b = Some cs \<Longrightarrow> c \<in> set cs \<Longrightarrow> isAncestor T a c"

subsection \<open>The tree a ConflictTree stands for\<close>

text \<open>
  The proofs about \<open>findBest\<close> read the two maps as a tree of nodes: \<open>emb T t\<close> says
  that every node of \<open>t\<close> has its value and the list of its children's labels in \<open>T\<close>.
\<close>

datatype rtree = RNode LoopId u32 "rtree list"

fun rroot :: "rtree \<Rightarrow> LoopId" where
  "rroot (RNode n v ks) = n"

fun nodeset :: "rtree \<Rightarrow> LoopId set" where
  "nodeset (RNode n v ks) = insert n (\<Union> (nodeset ` set ks))"

fun anc :: "rtree \<Rightarrow> (LoopId \<times> LoopId) set" where
  "anc (RNode n v ks) = ({n} \<times> \<Union> (nodeset ` set ks)) \<union> \<Union> (anc ` set ks)"

fun wf_rtree :: "rtree \<Rightarrow> bool" where
  "wf_rtree (RNode n v ks) =
     (n \<notin> \<Union> (nodeset ` set ks) \<and> (\<forall>k\<in>set ks. wf_rtree k) \<and>
      (\<forall>i<length ks. \<forall>j<length ks. i \<noteq> j \<longrightarrow> nodeset (ks ! i) \<inter> nodeset (ks ! j) = {}))"

fun emb :: "ConflictTree \<Rightarrow> rtree \<Rightarrow> bool" where
  "emb T (RNode n v ks) =
     (values T n = Some v \<and> children T n = Some (map rroot ks) \<and> (\<forall>k\<in>set ks. emb T k))"

fun fits :: "nat \<Rightarrow> rtree \<Rightarrow> bool" where
  "fits 0 t = False"
| "fits (Suc k) (RNode n v ks) = (\<forall>c\<in>set ks. fits k c)"

fun rins :: "LoopId \<Rightarrow> LoopId \<Rightarrow> u32 \<Rightarrow> rtree \<Rightarrow> rtree" where
  "rins p n v (RNode m w ks) =
     (if m = p then RNode m w (ks @ [RNode n v []]) else RNode m w (map (rins p n v) ks))"

fun rsel :: "(u32 \<Rightarrow> u32 \<Rightarrow> u32) \<Rightarrow> rtree \<Rightarrow> u32 \<times> LoopId list" where
  "rsel f (RNode n v ks) =
     (let val = foldl f 0 (map (\<lambda>k. fst (rsel f k)) ks)
      in if val > v then (val, concat (map (\<lambda>k. snd (rsel f k)) ks)) else (v, [n]))"

definition treeInv :: "nat \<Rightarrow> ConflictTree \<Rightarrow> bool" where
  "treeInv k T =
     ((Root T = None \<and> values T = Map.empty \<and> children T = Map.empty) \<or>
      (\<exists>t. Root T = Some (rroot t) \<and> emb T t \<and> wf_rtree t \<and> fits k t \<and>
           dom (values T) = nodeset t \<and> dom (children T) = nodeset t))"

subsection \<open>What the pass reads: flags, IR values, the affine-access analysis\<close>

record Flags =
  InferSSR :: bool
  SSRNoIntersectCheck :: bool
  SSRNoTCDMCheck :: bool
  SSRNoBoundCheck :: bool
  SSRConflictFreeOnly :: bool
  SSRNoInline :: bool
  SSRBarrier :: bool
  SSRVerbose :: bool

datatype Ty = Int1Ty | Int32Ty | DoubleTy | OtherTy

text \<open>
  IR values as the terms that compute them. An \<^verbatim>\<open>IRBuilder\<close> call is recorded as the
  instruction it is asked for. \<open>Opaque\<close> is any other value (an argument, the result of
  code the analysis expanded), known by a number and its type.
\<close>

datatype Value =
    ConstantInt Ty nat
  | Opaque Ty nat
  | ICmpULE Value Value
  | And Value Value
  | Sub Value Value

fun getType :: "Value \<Rightarrow> Ty" where
  "getType (ConstantInt t v) = t"
| "getType (Opaque t i) = t"
| "getType (ICmpULE a b) = Int1Ty"
| "getType (And a b) = getType a"
| "getType (Sub a b) = getType a"

text \<open>
  The run-time value of an integer IR value, as a 32-bit word (an \<^verbatim>\<open>i1\<close> is 0 or 1),
  under an assignment to the opaque values.
\<close>

fun truncTo :: "Ty \<Rightarrow> u32 \<Rightarrow> u32" where
  "truncTo Int1Ty w = (if even w then 0 else 1)"
| "truncTo t w = w"

fun evalValue :: "(nat \<Rightarrow> u32) \<Rightarrow> Value \<Rightarrow> u32" where
  "evalValue env (ConstantInt t v) = truncTo t (of_nat v)"
| "evalValue env (Opaque t i) = truncTo t (env i)"
| "evalValue env (ICmpULE a b) = (if evalValue env a \<le> evalValue env b then 1 else 0)"
| "evalValue env (And a b) = and (evalValue env a) (evalValue env b)"
| "evalValue env (Sub a b) = truncTo (getType a) (evalValue env a - evalValue env b)"

datatype AffAccConflict = NoConflict | MustNotIntersect | Bad

text \<open>
  Of a \<^verbatim>\<open>SCEV\<close> the pass reads \<^verbatim>\<open>getExpressionSize()\<close> and, when it is an
  \<^verbatim>\<open>scConstant\<close>, the unsigned value of its \<^verbatim>\<open>APInt\<close>.
\<close>

record SCEV =
  getExpressionSize :: nat
  getAPInt :: "nat option"

record ExpandedAffAcc =
  Access :: AccId
  Addr :: Value
  Steps :: "Value list"
  Reps :: "Value list"
  PrefixSumRanges :: "Value list"
  LowerBound :: Value
  UpperBound :: Value
  getDimension :: nat

datatype Loop = Loop LoopId "Loop list"

fun getSubLoops :: "Loop \<Rightarrow> Loop list" where
  "getSubLoops (Loop l subs) = subs"

fun loopId :: "Loop \<Rightarrow> LoopId" where
  "loopId (Loop l subs) = l"

text \<open>
  \<^verbatim>\<open>AffineAccess\<close>, \<^verbatim>\<open>AffAcc\<close>, \<^verbatim>\<open>LoopInfo\<close> and the instructions are declared outside
  this file: what the pass asks them is a parameter of the model, one field for each
  method, with the object (\<^verbatim>\<open>AffAcc *\<close>, \<^verbatim>\<open>Loop *\<close>, \<^verbatim>\<open>Instruction *\<close>) as the first
  argument. \<open>exitBlocks\<close> is what \<^verbatim>\<open>L->getExitBlocks\<close> fills in, \<open>ssrInvalidLoops\<close> the
  set \<^verbatim>\<open>findLoopsWithSSR\<close> computes from the body.
\<close>

record AffineAccess =
  isWrite :: "AccId \<Rightarrow> bool"
  getAccesses :: "AccId \<Rightarrow> InstId list"
  instType :: "InstId \<Rightarrow> Ty"
  valueOperandType :: "InstId \<Rightarrow> Ty"
  getValueOperand :: "InstId \<Rightarrow> Value"
  isWellFormed :: "AccId \<Rightarrow> LoopId \<Rightarrow> bool"
  loopToDimension :: "AccId \<Rightarrow> LoopId \<Rightarrow> nat"
  getBaseAddr :: "AccId \<Rightarrow> nat \<Rightarrow> SCEV"
  getStep :: "AccId \<Rightarrow> nat \<Rightarrow> SCEV"
  getRep :: "AccId \<Rightarrow> nat \<Rightarrow> SCEV"
  getLoop :: "AccId \<Rightarrow> nat \<Rightarrow> LoopId"
  getConflicts :: "AccId \<Rightarrow> LoopId \<Rightarrow> (AccId \<times> AffAccConflict) list"
  getExpandableAccesses :: "LoopId \<Rightarrow> bool \<Rightarrow> AccId list"
  expandAllAt :: "AccId list \<Rightarrow> LoopId \<Rightarrow> bool \<Rightarrow> bool \<Rightarrow> ExpandedAffAcc list \<times> Value option"
  getTopLevelLoops :: "Loop list"
  hasLoopPreheader :: "LoopId \<Rightarrow> bool"
  exitBlocks :: "LoopId \<Rightarrow> nat list"
  ssrInvalidLoops :: "LoopId set"

subsection \<open>Gain estimation\<close>

text \<open>
  \<^verbatim>\<open>getEstExpandCost(A, dim)\<close>: the loop runs \<^verbatim>\<open>i\<close> from 1 while \<^verbatim>\<open>i < dim\<close>.
\<close>

definition getEstExpandCost :: "AffineAccess \<Rightarrow> AccId \<Rightarrow> nat \<Rightarrow> i32" where
  "getEstExpandCost AAA A dim =
     fold (\<lambda>i cost.
             let cost = cost + of_nat (getExpressionSize (getStep AAA A i));
                 cost = cost + of_nat (getExpressionSize (getRep AAA A i));
                 cost = cost + EST_MUL_COST
             in if i > 1 then cost + 1 else cost)
          [1..<dim]
          (0 + of_nat (getExpressionSize (getBaseAddr AAA A dim)))"

text \<open>\<^verbatim>\<open>std::max\<close> on \<^verbatim>\<open>int\<close>: \<^verbatim>\<open>(a < b) ? b : a\<close>, compared as signed.\<close>

definition std_max :: "i32 \<Rightarrow> i32 \<Rightarrow> i32" where
  "std_max a b = (if sint a < sint b then b else a)"

definition INT_MAX :: nat where "INT_MAX = 2147483647"

text \<open>
  The inner loop of \<^verbatim>\<open>getEstGain\<close>, \<^verbatim>\<open>d\<close> from \<^verbatim>\<open>dim\<close> down to 1, on the pair
  (\<^verbatim>\<open>reps\<close>, \<^verbatim>\<open>contLoops\<close>). \<^verbatim>\<open>getLimitedValue(INT_MAX)\<close> is the minimum of the unsigned
  value and \<^verbatim>\<open>INT_MAX\<close>; the product wraps.
\<close>

definition repsLoop :: "AffineAccess \<Rightarrow> AccId \<Rightarrow> nat \<Rightarrow> i32 \<times> LoopId set \<Rightarrow> i32 \<times> LoopId set" where
  "repsLoop AAA A dim =
     fold (\<lambda>d (reps, contLoops).
             let loopTC = (case getAPInt (getRep AAA A d) of
                             None \<Rightarrow> EST_LOOP_TC
                           | Some c \<Rightarrow> of_nat (min c INT_MAX))
             in (std_max (reps * loopTC) reps, insert (getLoop AAA A d) contLoops))
          (rev [1..<Suc dim])"

text \<open>
  The loop over \<^verbatim>\<open>A->getConflicts(L)\<close>: \<^verbatim>\<open>Bad\<close> runs into \<^verbatim>\<open>assert(false)\<close> and
  \<^verbatim>\<open>llvm_unreachable\<close>.
\<close>

fun conflictLoop ::
  "AffineAccess \<Rightarrow> LoopId \<Rightarrow> AccId set \<Rightarrow> AccId set \<Rightarrow> (AccId \<times> AffAccConflict) list \<Rightarrow> i32 \<Rightarrow>
   i32 option" where
  "conflictLoop AAA L accs vis [] gain = Some gain"
| "conflictLoop AAA L accs vis ((B, NoConflict) # ps) gain = conflictLoop AAA L accs vis ps gain"
| "conflictLoop AAA L accs vis ((B, MustNotIntersect) # ps) gain =
     (if B \<in> vis then conflictLoop AAA L accs vis ps gain
      else
        let dimB = loopToDimension AAA B L;
            gain = (if B \<notin> accs then gain - getEstExpandCost AAA B dimB else gain);
            gain = gain - 4
        in conflictLoop AAA L accs vis ps gain)"
| "conflictLoop AAA L accs vis ((B, Bad) # ps) gain = None"

text \<open>
  The outer loop of \<^verbatim>\<open>getEstGain\<close> on (\<^verbatim>\<open>gain\<close>, \<^verbatim>\<open>vis\<close>, \<^verbatim>\<open>contLoops\<close>), with
  \<^verbatim>\<open>EST_MEMOP_COST\<close> as the parameter \<open>memop\<close>.
\<close>

fun gainLoop ::
  "i32 \<Rightarrow> Flags \<Rightarrow> AffineAccess \<Rightarrow> LoopId \<Rightarrow> AccId set \<Rightarrow> AccId list \<Rightarrow>
   i32 \<times> AccId set \<times> LoopId set \<Rightarrow> (i32 \<times> AccId set \<times> LoopId set) option" where
  "gainLoop memop fl AAA L accs [] st = Some st"
| "gainLoop memop fl AAA L accs (A # As) (gain, vis, contLoops) =
     (let vis = insert A vis;
          dim = loopToDimension AAA A L;
          gain = gain - getEstExpandCost AAA A dim
      in case (if \<not> SSRNoIntersectCheck fl
               then conflictLoop AAA L accs vis (getConflicts AAA A L) gain
               else Some gain) of
           None \<Rightarrow> None
         | Some gain \<Rightarrow>
             let gain = (if \<not> SSRNoTCDMCheck fl then gain - 4 else gain);
                 (reps, contLoops) = repsLoop AAA A dim (1, contLoops);
                 gain = gain + memop * reps
             in gainLoop memop fl AAA L accs As (gain, vis, contLoops))"

definition getEstGain_memop :: "i32 \<Rightarrow> Flags \<Rightarrow> AffineAccess \<Rightarrow> AccId list \<Rightarrow> LoopId \<Rightarrow> i32 option" where
  "getEstGain_memop memop fl AAA Accs L =
     (case gainLoop memop fl AAA L (set Accs) Accs (0, {}, {}) of
        None \<Rightarrow> None
      | Some (gain, vis, contLoops) \<Rightarrow>
          Some (if \<not> SSRNoBoundCheck fl then gain - 2 * of_nat (card contLoops) else gain))"

definition getEstGain :: "Flags \<Rightarrow> AffineAccess \<Rightarrow> AccId list \<Rightarrow> LoopId \<Rightarrow> i32 option" where
  "getEstGain = getEstGain_memop EST_MEMOP_COST"

subsection \<open>Filtering and ordering the accesses of a loop\<close>

text \<open>
  \<^verbatim>\<open>getSingleExitBlock\<close>. \<^verbatim>\<open>L->getExitBlock()\<close> is the exit block when
  \<^verbatim>\<open>getExitBlocks\<close> lists exactly one, and null otherwise.
\<close>

definition getExitBlock :: "AffineAccess \<Rightarrow> LoopId \<Rightarrow> nat option" where
  "getExitBlock AAA L = (case exitBlocks AAA L of [b] \<Rightarrow> Some b | _ \<Rightarrow> None)"

fun singleExitLoop :: "nat list \<Rightarrow> nat option \<Rightarrow> nat option" where
  "singleExitLoop [] ExB = ExB"
| "singleExitLoop (BB # exits) ExB =
     (let ExB = (case ExB of None \<Rightarrow> Some BB | Some e \<Rightarrow> Some e)
      in if ExB \<noteq> Some BB then None else singleExitLoop exits ExB)"

definition getSingleExitBlock :: "AffineAccess \<Rightarrow> LoopId \<Rightarrow> nat option" where
  "getSingleExitBlock AAA L =
     (case getExitBlock AAA L of
        Some ExB \<Rightarrow> Some ExB
      | None \<Rightarrow> singleExitLoop (exitBlocks AAA L) None)"

definition CHECK_TYPE :: "Ty \<Rightarrow> bool" where
  "CHECK_TYPE T = (T = DoubleTy)"

text \<open>
  \<^verbatim>\<open>isValid(A, L)\<close>; \<open>None\<close> is the failed \<^verbatim>\<open>assert(A->isWellFormed(L))\<close>. That every
  access of a write is a \<^verbatim>\<open>StoreInst\<close> (the \<^verbatim>\<open>cast\<close>) is taken from the analysis.
\<close>

definition isValid :: "AffineAccess \<Rightarrow> AccId \<Rightarrow> LoopId \<Rightarrow> bool option" where
  "isValid AAA A L =
     (if \<not> isWellFormed AAA A L then None
      else
        let write = isWrite AAA A;
            valid = fold (\<lambda>I valid.
                      if write then valid \<and> CHECK_TYPE (valueOperandType AAA I)
                      else valid \<and> CHECK_TYPE (instType AAA I))
                    (getAccesses AAA A) True
        in Some (valid \<and> loopToDimension AAA A L \<le> SSR_MAX_DIM))"

definition isValidLoop :: "AffineAccess \<Rightarrow> LoopId \<Rightarrow> bool" where
  "isValidLoop AAA L =
     (if \<not> hasLoopPreheader AAA L \<or> getSingleExitBlock AAA L = None then False else True)"

fun filterValid :: "AffineAccess \<Rightarrow> LoopId \<Rightarrow> AccId list \<Rightarrow> AccId list option" where
  "filterValid AAA L [] = Some []"
| "filterValid AAA L (A # accs) =
     (case isValid AAA A L of
        None \<Rightarrow> None
      | Some ok \<Rightarrow>
          (case filterValid AAA L accs of
             None \<Rightarrow> None
           | Some valid \<Rightarrow> Some (if ok then A # valid else valid)))"

text \<open>The comparator \<^verbatim>\<open>comp\<close> of \<^verbatim>\<open>visitLoop\<close> (\<open>comp\<close> is function composition in HOL).\<close>

definition comp_acc :: "AffineAccess \<Rightarrow> LoopId \<Rightarrow> AccId \<Rightarrow> AccId \<Rightarrow> bool" where
  "comp_acc AAA L A B =
     (let dimA = loopToDimension AAA A L; dimB = loopToDimension AAA B L
      in dimA < dimB \<or> (dimA = dimB \<and> (\<not> isWrite AAA A \<and> isWrite AAA B)))"

text \<open>
  \<^verbatim>\<open>std::sort(first, last, comp)\<close> orders the range by \<^verbatim>\<open>comp\<close> and leaves the order of
  equivalent elements open. The model is insertion sort, which keeps them in their
  order: it is one of the results \<^verbatim>\<open>std::sort\<close> may give. Which of several accesses of
  the same dimension and kind are kept when more than \<^verbatim>\<open>NUM_SSR\<close> are valid is thus fixed
  by the model and open in the code. The statements about candidate sets use only that
  the result is ordered by \<^verbatim>\<open>comp\<close> and is a permutation of the input, and hold for every
  such result (lemma \<open>candidate_set_any_sort\<close>).
\<close>

fun insert_sorted :: "('a \<Rightarrow> 'a \<Rightarrow> bool) \<Rightarrow> 'a \<Rightarrow> 'a list \<Rightarrow> 'a list" where
  "insert_sorted cmp x [] = [x]"
| "insert_sorted cmp x (y # ys) =
     (if cmp x y then x # y # ys else y # insert_sorted cmp x ys)"

definition std_sort :: "('a \<Rightarrow> 'a \<Rightarrow> bool) \<Rightarrow> 'a list \<Rightarrow> 'a list" where
  "std_sort cmp xs = fold (insert_sorted cmp) xs []"

subsection \<open>visitLoop and the traversal of a loop nest\<close>

text \<open>
  \<^verbatim>\<open>visitLoop\<close> on the pair (\<^verbatim>\<open>possible\<close>, \<^verbatim>\<open>tree\<close>); \<open>Parent\<close> is
  \<^verbatim>\<open>L->isOutermost() ? nullptr : L->getParentLoop()\<close>. The result carries the returned
  flag. \<open>None\<close>: a failed assertion of \<^verbatim>\<open>isValid\<close>, \<^verbatim>\<open>getEstGain\<close> or \<^verbatim>\<open>insertNode\<close>.
\<close>

definition visitLoop ::
  "Flags \<Rightarrow> AffineAccess \<Rightarrow> LoopId \<Rightarrow> LoopId option \<Rightarrow> bool \<Rightarrow>
   (LoopId \<rightharpoonup> AccId list) \<times> ConflictTree \<Rightarrow>
   (((LoopId \<rightharpoonup> AccId list) \<times> ConflictTree) \<times> bool) option" where
  "visitLoop fl AAA L Parent isKnownInvalid st =
     (let possible = fst st; tree = snd st;
          accs = getExpandableAccesses AAA L (SSRConflictFreeOnly fl);
          invalid = (isKnownInvalid \<or> \<not> isValidLoop AAA L);
          accs = (if invalid then [] else accs)
      in case filterValid AAA L accs of
           None \<Rightarrow> None
         | Some valid \<Rightarrow>
             let valid = std_sort (comp_acc AAA L) valid;
                 possible = dm_insert L [] possible;
                 l = (case possible L of None \<Rightarrow> [] | Some l0 \<Rightarrow> l0) @ take NUM_SSR valid;
                 possible = possible(L \<mapsto> l)
             in (case getEstGain fl AAA l L of
                   None \<Rightarrow> None
                 | Some gain \<Rightarrow>
                     (let val = std_max 0 gain
                      in (case insertNode L val Parent tree of
                            None \<Rightarrow> None
                          | Some tree \<Rightarrow> Some ((possible, tree), \<not> invalid)))))"

text \<open>
  The worklist loop of \<^verbatim>\<open>run\<close> over the nest of a top-level loop. A worklist entry
  carries the loop with its parent: the sub-loops of \<open>L\<close> have \<open>L\<close> as parent, the
  top-level loop has none.
\<close>

function traverse ::
  "Flags \<Rightarrow> AffineAccess \<Rightarrow> (LoopId option \<times> Loop) list \<Rightarrow>
   (LoopId \<rightharpoonup> AccId list) \<times> ConflictTree \<Rightarrow> ((LoopId \<rightharpoonup> AccId list) \<times> ConflictTree) option" where
  "traverse fl AAA [] st = Some st"
| "traverse fl AAA ((Parent, Loop L subs) # worklist) st =
     (case visitLoop fl AAA L Parent (L \<in> ssrInvalidLoops AAA) st of
        None \<Rightarrow> None
      | Some (st', r) \<Rightarrow> traverse fl AAA (worklist @ map (Pair (Some L)) subs) st')"
  by pat_completeness auto
termination
  by (relation "measure (\<lambda>(fl, AAA, worklist, st). sum_list (map (\<lambda>(p, l). size l) worklist))")
     (auto simp: size_list_conv_sum_list o_def)

fun loopCount :: "Loop \<Rightarrow> nat" where
  "loopCount (Loop l subs) = Suc (sum_list (map loopCount subs))"

fun loopIds :: "Loop \<Rightarrow> LoopId list" where
  "loopIds (Loop l subs) = l # concat (map loopIds subs)"

subsection \<open>The changes to the function\<close>

text \<open>
  The function is its attributes and the list of the edits made to its body, in the
  order the pass makes them. An \<^verbatim>\<open>IRBuilder\<close> positioned at an instruction inserts
  before it, so the instructions in front of one insertion point stand in the order of
  their edits. The instructions the pass names: the terminator of a loop's preheader,
  the first insertion point of an exit block, a load or store of an access, and
  \<^verbatim>\<open>BRFuse\<close>, the branch that \<^verbatim>\<open>cloneRegion\<close> puts at the end of the original region
  when it splits the exit block at \<^verbatim>\<open>EndBefore\<close>.
\<close>

datatype Inst =
    PreheaderTerminator LoopId
  | FirstInsertionPt nat
  | AccessInst InstId
  | BRFuse Inst

datatype Intrinsic =
    riscv_ssr_setup_bound_stride nat
  | riscv_ssr_push
  | riscv_ssr_pop
  | riscv_ssr_setup_repetition
  | riscv_ssr_read_imm
  | riscv_ssr_write_imm
  | riscv_ssr_barrier
  | riscv_ssr_enable
  | riscv_ssr_disable

text \<open>
  \<open>ExpandAllAt\<close>: the code \<^verbatim>\<open>AAA.expandAllAt\<close> writes in front of the preheader's
  terminator. \<open>InsertInst p v\<close>: the instruction computing \<open>v\<close>, created before \<open>p\<close>.
  \<open>CreateCall p f args\<close>: a call of the intrinsic before \<open>p\<close>. \<open>EraseFromParent\<close> and
  \<open>ReplaceInstWithValue\<close> (by the result of the call created just before) remove an
  access. \<open>CloneRegion\<close> is all of \<^verbatim>\<open>cloneRegion(BeginWith, EndBefore)\<close>, whose block
  surgery no statement here looks into; \<open>SetCondition\<close> sets the condition of the
  branch it returns.
\<close>

datatype Edit =
    ExpandAllAt "AccId list" LoopId
  | InsertInst Inst Value
  | CreateCall Inst Intrinsic "Value list"
  | EraseFromParent InstId
  | ReplaceInstWithValue InstId
  | CloneRegion Inst Inst
  | SetCondition Value

datatype Attr = StringAttr string | NoInline

record Function =
  fnAttrs :: "Attr set"
  edits :: "Edit list"

datatype PreservedAnalyses = all_preserved | none_preserved

definition SSRFnAttr :: Attr where
  "SSRFnAttr = StringAttr ''SSR''"

subsection \<open>Expansion and the TCDM checks\<close>

text \<open>\<^verbatim>\<open>GenerateTCDMCheck(E, Point)\<close>: the value returned and the three instructions.\<close>

definition GenerateTCDMCheck :: "ExpandedAffAcc \<Rightarrow> Inst \<Rightarrow> Value \<times> Edit list" where
  "GenerateTCDMCheck E Point =
     (let c1 = ICmpULE (ConstantInt (getType (LowerBound E)) SSR_SCRATCHPAD_BEGIN) (LowerBound E);
          c2 = ICmpULE (UpperBound E) (ConstantInt (getType (UpperBound E)) SSR_SCRATCHPAD_END)
      in (And c1 c2, [InsertInst Point c1, InsertInst Point c2, InsertInst Point (And c1 c2)]))"

fun tcdmLoop :: "Inst \<Rightarrow> ExpandedAffAcc list \<Rightarrow> Value \<times> Edit list \<Rightarrow> Value \<times> Edit list" where
  "tcdmLoop PhT [] st = st"
| "tcdmLoop PhT (E # exp) (Cond, es) =
     (let (chk, ces) = GenerateTCDMCheck E PhT;
          Cond = And Cond chk
      in tcdmLoop PhT exp (Cond, es @ ces @ [InsertInst PhT Cond]))"

text \<open>
  \<^verbatim>\<open>expandInLoop(accs, L, AAA, Cond)\<close>: the expanded accesses, the final \<^verbatim>\<open>Cond\<close> and
  the edits. \<open>None\<close>: one of its assertions fails, or the loop has no preheader to take
  the terminator of.
\<close>

definition expandInLoop ::
  "Flags \<Rightarrow> AffineAccess \<Rightarrow> AccId list \<Rightarrow> LoopId \<Rightarrow> (ExpandedAffAcc list \<times> Value \<times> Edit list) option" where
  "expandInLoop fl AAA accs L =
     (if accs = [] then None
      else if \<not> length accs \<le> NUM_SSR then None
      else if \<not> hasLoopPreheader AAA L then None
      else
        let PhT = PreheaderTerminator L;
            (exp, Cond0) = expandAllAt AAA accs L (\<not> SSRNoIntersectCheck fl) (\<not> SSRNoBoundCheck fl)
        in case Cond0 of
             None \<Rightarrow> None
           | Some Cond \<Rightarrow>
               let (Cond, es) = (if \<not> SSRNoTCDMCheck fl
                                 then tcdmLoop PhT exp (Cond, [ExpandAllAt accs L])
                                 else (Cond, [ExpandAllAt accs L]))
               in if getType Cond \<noteq> Int1Ty then None else Some (exp, Cond, es))"

subsection \<open>Emitting the intrinsics\<close>

text \<open>
  The bound and stride loop of \<^verbatim>\<open>GenerateSSRSetup\<close>; reading a vector past its end is
  \<open>None\<close>.
\<close>

fun boundStrideLoop :: "ExpandedAffAcc \<Rightarrow> Value \<Rightarrow> Inst \<Rightarrow> nat list \<Rightarrow> Edit list option" where
  "boundStrideLoop E DMid Point [] = Some []"
| "boundStrideLoop E DMid Point (i # is) =
     (if \<not> i < length (Steps E) then None
      else if i > 0 \<and> \<not> i - 1 < length (PrefixSumRanges E) then None
      else if \<not> i < length (Reps E) then None
      else
        let Stride0 = Steps E ! i;
            (Stride, ses) = (if i > 0
                             then (Sub Stride0 (PrefixSumRanges E ! (i - 1)),
                                   [InsertInst Point (Sub Stride0 (PrefixSumRanges E ! (i - 1)))])
                             else (Stride0, []));
            Bound = Reps E ! i;
            es = ses @ [CreateCall Point (riscv_ssr_setup_bound_stride (i + 1)) [DMid, Bound, Stride]]
        in case boundStrideLoop E DMid Point is of
             None \<Rightarrow> None
           | Some rest \<Rightarrow> Some (es @ rest))"

definition accessEdits :: "AffineAccess \<Rightarrow> bool \<Rightarrow> Value \<Rightarrow> InstId \<Rightarrow> Edit list" where
  "accessEdits AAA isStore DMid I =
     (if isStore
      then [CreateCall (AccessInst I) riscv_ssr_push [DMid, getValueOperand AAA I], EraseFromParent I]
      else [CreateCall (AccessInst I) riscv_ssr_pop [DMid], ReplaceInstWithValue I])"

text \<open>
  \<^verbatim>\<open>GenerateSSRSetup(E, dmid, Point)\<close>. \<^verbatim>\<open>dim - 1U\<close> and \<^verbatim>\<open>n_reps - 1U\<close> are unsigned
  subtractions.
\<close>

definition GenerateSSRSetup :: "AffineAccess \<Rightarrow> ExpandedAffAcc \<Rightarrow> nat \<Rightarrow> Inst \<Rightarrow> Edit list option" where
  "GenerateSSRSetup AAA E dmid Point =
     (let dim = getDimension E
      in if \<not> dim \<le> SSR_MAX_DIM then None
         else
           let Dim = ConstantInt Int32Ty (unat ((of_nat dim :: u32) - 1));
               DMid = ConstantInt Int32Ty dmid;
               isStore = isWrite AAA (Access E)
           in case boundStrideLoop E DMid Point [0..<dim] of
                None \<Rightarrow> None
              | Some bs \<Rightarrow>
                  let accesses = getAccesses AAA (Access E);
                      aes = concat (map (accessEdits AAA isStore DMid) accesses);
                      n_reps = length accesses;
                      Rep = ConstantInt Int32Ty (unat ((of_nat n_reps :: u32) - 1));
                      SSRSetup = (if \<not> isStore then riscv_ssr_read_imm else riscv_ssr_write_imm)
                  in Some (bs @ aes @
                           [CreateCall Point riscv_ssr_setup_repetition [DMid, Rep],
                            CreateCall Point SSRSetup [DMid, Dim, Addr E]]))"

definition generateSSRBarrier :: "Inst \<Rightarrow> nat \<Rightarrow> Edit list" where
  "generateSSRBarrier InsertBefore dmid =
     [CreateCall InsertBefore riscv_ssr_barrier [ConstantInt Int32Ty dmid]]"

definition generateSSREnDis :: "Inst \<Rightarrow> Inst \<Rightarrow> Edit list" where
  "generateSSREnDis PhP ExP =
     [CreateCall PhP riscv_ssr_enable [], CreateCall ExP riscv_ssr_disable []]"

text \<open>
  The loop \<^verbatim>\<open>for (auto &E : exp) { GenerateSSRSetup(E, dmid++, PhT); if (SSRBarrier)
  generateSSRBarrier(ExP, dmid); }\<close> of \<^verbatim>\<open>cloneAndSetup\<close>.
\<close>

fun setupLoop ::
  "Flags \<Rightarrow> AffineAccess \<Rightarrow> Inst \<Rightarrow> Inst \<Rightarrow> ExpandedAffAcc list \<Rightarrow> nat \<Rightarrow> Edit list option" where
  "setupLoop fl AAA PhT ExP [] dmid = Some []"
| "setupLoop fl AAA PhT ExP (E # exp) dmid =
     (case GenerateSSRSetup AAA E dmid PhT of
        None \<Rightarrow> None
      | Some ses \<Rightarrow>
          (let dmid = dmid + 1;
               bes = (if SSRBarrier fl then generateSSRBarrier ExP dmid else [])
           in (case setupLoop fl AAA PhT ExP exp dmid of
                 None \<Rightarrow> None
               | Some rest \<Rightarrow> Some (ses @ bes @ rest))))"

text \<open>
  \<^verbatim>\<open>cloneAndSetup(PhT, ExP, Cond, exp)\<close>: the edits it makes. A constant \<^verbatim>\<open>Cond\<close> with
  \<^verbatim>\<open>getLimitedValue() == 0\<close> returns before anything is emitted.
\<close>

definition cloneAndSetup ::
  "Flags \<Rightarrow> AffineAccess \<Rightarrow> Inst \<Rightarrow> Inst \<Rightarrow> Value \<Rightarrow> ExpandedAffAcc list \<Rightarrow> Edit list option" where
  "cloneAndSetup fl AAA PhT ExP Cond exp =
     (if \<not> length exp \<le> NUM_SSR then None
      else if length exp = 0 then Some []
      else
        case Cond of
          ConstantInt t c \<Rightarrow>
            if c = 0 then Some []
            else (case setupLoop fl AAA PhT ExP exp 0 of
                    None \<Rightarrow> None
                  | Some ses \<Rightarrow> Some (ses @ generateSSREnDis PhT ExP))
        | _ \<Rightarrow>
            let ces = [CloneRegion PhT ExP, SetCondition Cond];
                ExP = BRFuse ExP
            in (case setupLoop fl AAA PhT ExP exp 0 of
                  None \<Rightarrow> None
                | Some ses \<Rightarrow> Some (ces @ ses @ generateSSREnDis PhT ExP)))"

subsection \<open>The pass\<close>

record PassState =
  changed :: bool
  trees :: "LoopId \<rightharpoonup> ConflictTree"
  bestLoops :: "LoopId \<rightharpoonup> LoopId list"
  possible :: "LoopId \<rightharpoonup> AccId list"
  conds :: "LoopId \<rightharpoonup> Value"
  exps :: "LoopId \<rightharpoonup> ExpandedAffAcc list"
  emitted :: "Edit list"

definition initState :: PassState where
  "initState = \<lparr>changed = False, trees = Map.empty, bestLoops = Map.empty, possible = Map.empty,
                conds = Map.empty, exps = Map.empty, emitted = []\<rparr>"

text \<open>The loop \<^verbatim>\<open>for (const Loop *L : best)\<close> that expands the chosen loops.\<close>

fun expandBest :: "Flags \<Rightarrow> AffineAccess \<Rightarrow> LoopId list \<Rightarrow> PassState \<Rightarrow> PassState option" where
  "expandBest fl AAA [] st = Some st"
| "expandBest fl AAA (L # best) st =
     (case possible st L of
        None \<Rightarrow> None
      | Some acc \<Rightarrow>
          if acc \<noteq> [] then
            (case expandInLoop fl AAA acc L of
               None \<Rightarrow> None
             | Some (exp, Cond, es) \<Rightarrow>
                 expandBest fl AAA best
                   (st\<lparr>changed := True, conds := dm_insert L Cond (conds st),
                       exps := dm_insert L exp (exps st), emitted := emitted st @ es\<rparr>))
          else expandBest fl AAA best st)"

text \<open>
  The first loop over the top-level loops. \<^verbatim>\<open>findBest\<close> gets as much fuel as the nest
  has loops, which is enough for the tree the traversal builds (lemma
  \<open>traverse_findBest\<close> below).
\<close>

fun firstPhase :: "Flags \<Rightarrow> AffineAccess \<Rightarrow> Loop list \<Rightarrow> PassState \<Rightarrow> PassState option" where
  "firstPhase fl AAA [] st = Some st"
| "firstPhase fl AAA (T # toploops) st =
     (let trees1 = dm_insert (loopId T) emptyTree (trees st);
          tree = (case trees1 (loopId T) of None \<Rightarrow> emptyTree | Some t \<Rightarrow> t)
      in case traverse fl AAA [(None, T)] (possible st, tree) of
           None \<Rightarrow> None
         | Some (possible', tree') \<Rightarrow>
             (case findBest (loopCount T) tree' (\<lambda>a b. a + b) of
                None \<Rightarrow> None
              | Some best \<Rightarrow>
                  (case expandBest fl AAA best
                          (st\<lparr>trees := trees1(loopId T \<mapsto> tree'), possible := possible'\<rparr>) of
                     None \<Rightarrow> None
                   | Some st' \<Rightarrow>
                       firstPhase fl AAA toploops
                         (st'\<lparr>bestLoops := dm_insert (loopId T) best (bestLoops st')\<rparr>))))"

text \<open>The second pair of loops: \<^verbatim>\<open>cloneAndSetup\<close> for every chosen loop with a condition.\<close>

fun setupBest :: "Flags \<Rightarrow> AffineAccess \<Rightarrow> PassState \<Rightarrow> LoopId list \<Rightarrow> Edit list option" where
  "setupBest fl AAA st [] = Some []"
| "setupBest fl AAA st (L # best) =
     (case conds st L of
        None \<Rightarrow> setupBest fl AAA st best
      | Some Cond \<Rightarrow>
          (case getSingleExitBlock AAA L of
             None \<Rightarrow> None
           | Some ExB \<Rightarrow>
               if \<not> hasLoopPreheader AAA L then None
               else
                 (case exps st L of
                    None \<Rightarrow> None
                  | Some exp \<Rightarrow>
                      (case cloneAndSetup fl AAA (PreheaderTerminator L) (FirstInsertionPt ExB) Cond exp of
                         None \<Rightarrow> None
                       | Some es \<Rightarrow>
                           (case setupBest fl AAA st best of
                              None \<Rightarrow> None
                            | Some rest \<Rightarrow> Some (es @ rest))))))"

fun secondPhase :: "Flags \<Rightarrow> AffineAccess \<Rightarrow> PassState \<Rightarrow> Loop list \<Rightarrow> Edit list option" where
  "secondPhase fl AAA st [] = Some []"
| "secondPhase fl AAA st (T # toploops) =
     (case bestLoops st (loopId T) of
        None \<Rightarrow> None
      | Some best \<Rightarrow>
          (case setupBest fl AAA st best of
             None \<Rightarrow> None
           | Some es \<Rightarrow>
               (case secondPhase fl AAA st toploops of
                  None \<Rightarrow> None
                | Some rest \<Rightarrow> Some (es @ rest))))"

text \<open>
  \<^verbatim>\<open>SSRGenerationPass::run(F, FAM)\<close>: the function as the pass leaves it and the
  analyses it reports preserved.
\<close>

definition run :: "Flags \<Rightarrow> AffineAccess \<Rightarrow> Function \<Rightarrow> (Function \<times> PreservedAnalyses) option" where
  "run fl AAA F =
     (if \<not> InferSSR fl then Some (F, all_preserved)
      else if SSRFnAttr \<in> fnAttrs F then Some (F, all_preserved)
      else
        case firstPhase fl AAA (getTopLevelLoops AAA) initState of
          None \<Rightarrow> None
        | Some st \<Rightarrow>
            (case secondPhase fl AAA st (getTopLevelLoops AAA) of
               None \<Rightarrow> None
             | Some es \<Rightarrow>
                 let F = F\<lparr>edits := edits F @ emitted st @ es\<rparr>
                 in if \<not> changed st then Some (F, all_preserved)
                    else
                      let F = F\<lparr>fnAttrs := insert SSRFnAttr (fnAttrs F)\<rparr>;
                          F = (if SSRNoInline fl then F\<lparr>fnAttrs := insert NoInline (fnAttrs F)\<rparr> else F)
                      in Some (F, none_preserved)))"

subsection \<open>Concrete inputs\<close>

text \<open>A root with value 5 and two leaves with values 3 and 4.\<close>

definition exampleTree :: ConflictTree where
  "exampleTree = \<lparr>values = [1 \<mapsto> 5, 2 \<mapsto> 3, 3 \<mapsto> 4],
                  children = [1 \<mapsto> [2, 3], 2 \<mapsto> [], 3 \<mapsto> []], Root = Some 1\<rparr>"

text \<open>
  One top-level loop 0 without sub-loops, with preheader and the single exit block 7.
  The accesses are loads of doubles; access \<open>A\<close> has dimension \<open>A + 1\<close> at every
  loop, every SCEV has expression size 1, and the repetitions are the constant \<open>c\<close>
  (or not constant for \<open>None\<close>). The analysis expands with the constant true as
  condition.
\<close>

definition exampleFlags :: Flags where
  "exampleFlags = \<lparr>InferSSR = True, SSRNoIntersectCheck = False, SSRNoTCDMCheck = False,
     SSRNoBoundCheck = False, SSRConflictFreeOnly = False, SSRNoInline = False,
     SSRBarrier = False, SSRVerbose = False\<rparr>"

definition exampleExpanded :: "AccId \<Rightarrow> ExpandedAffAcc" where
  "exampleExpanded A = \<lparr>Access = A, Addr = Opaque OtherTy (10 + A),
     Steps = replicate (Suc A) (Opaque Int32Ty 20), Reps = replicate (Suc A) (Opaque Int32Ty 21),
     PrefixSumRanges = replicate A (Opaque Int32Ty 22),
     LowerBound = Opaque Int32Ty 23, UpperBound = Opaque Int32Ty 24, getDimension = Suc A\<rparr>"

definition exampleAAA :: "nat option \<Rightarrow> AccId list \<Rightarrow> AffineAccess" where
  "exampleAAA c accs = \<lparr>isWrite = (\<lambda>A. False), getAccesses = (\<lambda>A. [A]),
     instType = (\<lambda>I. DoubleTy), valueOperandType = (\<lambda>I. DoubleTy),
     getValueOperand = (\<lambda>I. Opaque DoubleTy I), isWellFormed = (\<lambda>A L. True),
     loopToDimension = (\<lambda>A L. Suc A),
     getBaseAddr = (\<lambda>A d. \<lparr>getExpressionSize = 1, getAPInt = None\<rparr>),
     getStep = (\<lambda>A d. \<lparr>getExpressionSize = 1, getAPInt = None\<rparr>),
     getRep = (\<lambda>A d. \<lparr>getExpressionSize = 1, getAPInt = c\<rparr>),
     getLoop = (\<lambda>A d. d - 1), getConflicts = (\<lambda>A L. []),
     getExpandableAccesses = (\<lambda>L b. accs),
     expandAllAt = (\<lambda>accs L ic bc. (map exampleExpanded accs, Some (ConstantInt Int1Ty 1))),
     getTopLevelLoops = [Loop 0 []], hasLoopPreheader = (\<lambda>L. True),
     exitBlocks = (\<lambda>L. [7]), ssrInvalidLoops = {}\<rparr>"

definition exampleFunction :: Function where
  "exampleFunction = \<lparr>fnAttrs = {}, edits = []\<rparr>"

text \<open>The edits of \<^verbatim>\<open>GenerateSSRSetup\<close> for access 0 of the example as stream 0.\<close>

definition exampleSetup :: "Edit list" where
  "exampleSetup =
     [CreateCall (PreheaderTerminator 0) (riscv_ssr_setup_bound_stride 1)
        [ConstantInt Int32Ty 0, Opaque Int32Ty 21, Opaque Int32Ty 20],
      CreateCall (AccessInst 0) riscv_ssr_pop [ConstantInt Int32Ty 0],
      ReplaceInstWithValue 0,
      CreateCall (PreheaderTerminator 0) riscv_ssr_setup_repetition
        [ConstantInt Int32Ty 0, ConstantInt Int32Ty 0],
      CreateCall (PreheaderTerminator 0) riscv_ssr_read_imm
        [ConstantInt Int32Ty 0, ConstantInt Int32Ty 0, Opaque OtherTy 10]]"

definition exampleCond :: Value where
  "exampleCond =
     And (ConstantInt Int1Ty 1)
       (And (ICmpULE (ConstantInt Int32Ty 0x100000) (Opaque Int32Ty 23))
            (ICmpULE (Opaque Int32Ty 24) (ConstantInt Int32Ty 0x120000)))"

text \<open>The example function after the pass has put access 0 of loop 0 on a stream.\<close>

definition exampleResult :: Function where
  "exampleResult =
     \<lparr>fnAttrs = {StringAttr ''SSR''},
      edits =
        [ExpandAllAt [0] 0,
         InsertInst (PreheaderTerminator 0) (ICmpULE (ConstantInt Int32Ty 0x100000) (Opaque Int32Ty 23)),
         InsertInst (PreheaderTerminator 0) (ICmpULE (Opaque Int32Ty 24) (ConstantInt Int32Ty 0x120000)),
         InsertInst (PreheaderTerminator 0)
           (And (ICmpULE (ConstantInt Int32Ty 0x100000) (Opaque Int32Ty 23))
                (ICmpULE (Opaque Int32Ty 24) (ConstantInt Int32Ty 0x120000))),
         InsertInst (PreheaderTerminator 0) exampleCond,
         CloneRegion (PreheaderTerminator 0) (FirstInsertionPt 7),
         SetCondition exampleCond] @
        exampleSetup @
        [CreateCall (PreheaderTerminator 0) riscv_ssr_enable [],
         CreateCall (BRFuse (FirstInsertionPt 7)) riscv_ssr_disable []]\<rparr>"

text \<open>
  A second expanded access, a write of dimension 2, and an analysis that expands the
  accesses 0 and 1 of loop 0 to the read of the example and this write, under a condition
  that is not a constant.
\<close>

definition exampleWrite :: ExpandedAffAcc where
  "exampleWrite = \<lparr>Access = 1, Addr = Opaque OtherTy 11,
     Steps = [Opaque Int32Ty 30, Opaque Int32Ty 31], Reps = [Opaque Int32Ty 32, Opaque Int32Ty 33],
     PrefixSumRanges = [Opaque Int32Ty 34],
     LowerBound = Opaque Int32Ty 35, UpperBound = Opaque Int32Ty 36, getDimension = 2\<rparr>"

definition exampleAAA2 :: AffineAccess where
  "exampleAAA2 = (exampleAAA None [0, 1])
     \<lparr>isWrite := (\<lambda>A. A = 1),
      expandAllAt := (\<lambda>accs L ic bc. ([exampleExpanded 0, exampleWrite], Some (Opaque Int1Ty 40)))\<rparr>"

text \<open>
  The condition and the edits of \<^verbatim>\<open>expandInLoop\<close> for these two accesses with the TCDM
  checks on.
\<close>

definition exampleGuard :: Value where
  "exampleGuard =
     And (And (Opaque Int1Ty 40)
              (And (ICmpULE (ConstantInt Int32Ty 0x100000) (Opaque Int32Ty 23))
                   (ICmpULE (Opaque Int32Ty 24) (ConstantInt Int32Ty 0x120000))))
         (And (ICmpULE (ConstantInt Int32Ty 0x100000) (Opaque Int32Ty 35))
              (ICmpULE (Opaque Int32Ty 36) (ConstantInt Int32Ty 0x120000)))"

definition exampleGuardEdits :: "Edit list" where
  "exampleGuardEdits =
     [ExpandAllAt [0, 1] 0,
      InsertInst (PreheaderTerminator 0) (ICmpULE (ConstantInt Int32Ty 0x100000) (Opaque Int32Ty 23)),
      InsertInst (PreheaderTerminator 0) (ICmpULE (Opaque Int32Ty 24) (ConstantInt Int32Ty 0x120000)),
      InsertInst (PreheaderTerminator 0)
        (And (ICmpULE (ConstantInt Int32Ty 0x100000) (Opaque Int32Ty 23))
             (ICmpULE (Opaque Int32Ty 24) (ConstantInt Int32Ty 0x120000))),
      InsertInst (PreheaderTerminator 0)
        (And (Opaque Int1Ty 40)
             (And (ICmpULE (ConstantInt Int32Ty 0x100000) (Opaque Int32Ty 23))
                  (ICmpULE (Opaque Int32Ty 24) (ConstantInt Int32Ty 0x120000)))),
      InsertInst (PreheaderTerminator 0) (ICmpULE (ConstantInt Int32Ty 0x100000) (Opaque Int32Ty 35)),
      InsertInst (PreheaderTerminator 0) (ICmpULE (Opaque Int32Ty 36) (ConstantInt Int32Ty 0x120000)),
      InsertInst (PreheaderTerminator 0)
        (And (ICmpULE (ConstantInt Int32Ty 0x100000) (Opaque Int32Ty 35))
             (ICmpULE (Opaque Int32Ty 36) (ConstantInt Int32Ty 0x120000))),
      InsertInst (PreheaderTerminator 0) exampleGuard]"



subsection \<open>Terms the statements use\<close>

text \<open>The value \<^verbatim>\<open>GenerateTCDMCheck\<close> returns for an expanded access.\<close>

definition tcdmCheck :: "ExpandedAffAcc \<Rightarrow> Value" where
  "tcdmCheck E =
     And (ICmpULE (ConstantInt (getType (LowerBound E)) SSR_SCRATCHPAD_BEGIN) (LowerBound E))
         (ICmpULE (UpperBound E) (ConstantInt (getType (UpperBound E)) SSR_SCRATCHPAD_END))"

text \<open>
  The trip count \<^verbatim>\<open>getEstGain\<close> takes for dimension \<open>d\<close> of an access, and the value
  of \<^verbatim>\<open>reps\<close> after its inner loop.
\<close>

definition loopTC :: "AffineAccess \<Rightarrow> AccId \<Rightarrow> nat \<Rightarrow> i32" where
  "loopTC AAA A d = (case getAPInt (getRep AAA A d) of
                       None \<Rightarrow> EST_LOOP_TC
                     | Some c \<Rightarrow> of_nat (min c INT_MAX))"

definition tripProduct :: "AffineAccess \<Rightarrow> AccId \<Rightarrow> nat \<Rightarrow> i32" where
  "tripProduct AAA A dim = fst (repsLoop AAA A dim (1, {}))"

text \<open>
  The expansion cost as the specification's formula has it, with the dimensions \<open>d\<close>
  from 1 to \<open>dim\<close> inclusive.
\<close>

definition spec_expand_cost :: "AffineAccess \<Rightarrow> AccId \<Rightarrow> nat \<Rightarrow> i32" where
  "spec_expand_cost AAA A dim =
     of_nat (getExpressionSize (getBaseAddr AAA A dim)) +
     (\<Sum>d = 1..dim. of_nat (getExpressionSize (getStep AAA A d)) +
                    of_nat (getExpressionSize (getRep AAA A d)) + EST_MUL_COST +
                    (if d > 1 then 1 else 0))"

text \<open>
  What the checks cost: for every access, in the order of the list, the intersection
  checks against the accesses not visited before (with the expansion of an access that is
  not a candidate) and the TCDM check; and the loops that contribute a dimension, which
  the bound checks are counted for.
\<close>

fun intersectCost ::
  "AffineAccess \<Rightarrow> LoopId \<Rightarrow> AccId set \<Rightarrow> AccId set \<Rightarrow> (AccId \<times> AffAccConflict) list \<Rightarrow> i32" where
  "intersectCost AAA L accs vis [] = 0"
| "intersectCost AAA L accs vis ((B, c) # ps) =
     (if c = MustNotIntersect \<and> B \<notin> vis
      then (if B \<notin> accs then getEstExpandCost AAA B (loopToDimension AAA B L) else 0) + 4
      else 0) + intersectCost AAA L accs vis ps"

fun checkCost :: "Flags \<Rightarrow> AffineAccess \<Rightarrow> LoopId \<Rightarrow> AccId set \<Rightarrow> AccId set \<Rightarrow> AccId list \<Rightarrow> i32" where
  "checkCost fl AAA L accs vis [] = 0"
| "checkCost fl AAA L accs vis (A # As) =
     (if SSRNoIntersectCheck fl then 0
      else intersectCost AAA L accs (insert A vis) (getConflicts AAA A L)) +
     (if SSRNoTCDMCheck fl then 0 else 4) +
     checkCost fl AAA L accs (insert A vis) As"

definition contributingLoops :: "AffineAccess \<Rightarrow> LoopId \<Rightarrow> AccId list \<Rightarrow> LoopId set" where
  "contributingLoops AAA L Accs =
     (\<Union>A\<in>set Accs. getLoop AAA A ` {1..loopToDimension AAA A L})"

text \<open>The flags of the example with the three kinds of checks turned off.\<close>

definition noCheckFlags :: Flags where
  "noCheckFlags = \<lparr>InferSSR = True, SSRNoIntersectCheck = True, SSRNoTCDMCheck = True,
     SSRNoBoundCheck = True, SSRConflictFreeOnly = False, SSRNoInline = False,
     SSRBarrier = False, SSRVerbose = False\<rparr>"

text \<open>
  The order of a candidate set: \<open>A\<close> may stand before \<open>B\<close> when its dimension is not
  larger and, at equal dimensions, \<open>A\<close> is a write only if \<open>B\<close> is one.
\<close>

definition candidateOrder :: "AffineAccess \<Rightarrow> LoopId \<Rightarrow> AccId \<Rightarrow> AccId \<Rightarrow> bool" where
  "candidateOrder AAA L A B =
     (loopToDimension AAA A L \<le> loopToDimension AAA B L \<and>
      (loopToDimension AAA A L = loopToDimension AAA B L \<and> isWrite AAA A \<longrightarrow> isWrite AAA B))"

text \<open>The loops of the nests on a worklist, and how many they are.\<close>

definition wlIds :: "(LoopId option \<times> Loop) list \<Rightarrow> LoopId list" where
  "wlIds worklist = concat (map (\<lambda>(p, l). loopIds l) worklist)"

definition wlCount :: "(LoopId option \<times> Loop) list \<Rightarrow> nat" where
  "wlCount worklist = sum_list (map (\<lambda>(p, l). loopCount l) worklist)"

text \<open>
  \<open>gainRecorded\<close>: loop \<open>L\<close> has a candidate set in \<^verbatim>\<open>possible\<close>, and the tree holds the
  estimated gain of that set, or 0 when the gain is negative.
\<close>

definition gainRecorded ::
  "Flags \<Rightarrow> AffineAccess \<Rightarrow> (LoopId \<rightharpoonup> AccId list) \<Rightarrow> ConflictTree \<Rightarrow> LoopId \<Rightarrow> bool" where
  "gainRecorded fl AAA poss tree L =
     (\<exists>l gain. poss L = Some l \<and> getEstGain fl AAA l L = Some gain \<and>
               values tree L = Some (std_max 0 gain))"

text \<open>
  The candidate set \<^verbatim>\<open>visitLoop\<close> builds for a loop that has no entry in \<^verbatim>\<open>possible\<close>
  yet: the first \<^verbatim>\<open>NUM_SSR\<close> of the sorted valid accesses.
\<close>

definition candidateSet :: "Flags \<Rightarrow> AffineAccess \<Rightarrow> LoopId \<Rightarrow> AccId list option" where
  "candidateSet fl AAA L =
     map_option (\<lambda>valid. take NUM_SSR (std_sort (comp_acc AAA L) valid))
       (filterValid AAA L
          (if L \<in> ssrInvalidLoops AAA \<or> \<not> isValidLoop AAA L then []
           else getExpandableAccesses AAA L (SSRConflictFreeOnly fl)))"

text \<open>Every candidate set recorded so far is empty.\<close>

definition emptyPoss :: "(LoopId \<rightharpoonup> AccId list) \<Rightarrow> bool" where
  "emptyPoss poss = (\<forall>L l. poss L = Some l \<longrightarrow> l = [])"

section \<open>Properties\<close>

subsection \<open>findBest selects no ancestor together with a descendant\<close>

lemma for_children_sim:
  assumes "\<And>c res. c \<in> set ks \<Longrightarrow> rec (rroot c) res = Some (fst (rsel f c), res @ snd (rsel f c))"
  shows "for_children rec f (map rroot ks) val res =
         Some (foldl f val (map (\<lambda>k. fst (rsel f k)) ks), res @ concat (map (\<lambda>k. snd (rsel f k)) ks))"
  using assms by (induction ks arbitrary: val res) auto

lemma findBest_rec_sim:
  "emb T t \<Longrightarrow> fits k t \<Longrightarrow>
   findBest_rec k T f (rroot t) res = Some (fst (rsel f t), res @ snd (rsel f t))"
proof (induction t arbitrary: k res)
  case (RNode n v ks)
  from RNode.prems(2) obtain k' where k: "k = Suc k'" by (cases k) auto
  have kids: "\<And>c res. c \<in> set ks \<Longrightarrow>
      findBest_rec k' T f (rroot c) res = Some (fst (rsel f c), res @ snd (rsel f c))"
    using RNode.IH RNode.prems k by auto
  show ?case
    using RNode.prems for_children_sim [of ks "findBest_rec k' T f" f, OF kids]
    by (simp add: k Let_def)
qed

lemma rsel_subset: "set (snd (rsel f t)) \<subseteq> nodeset t"
  by (induction t) (auto simp: Let_def)

lemma anc_subset: "(a, b) \<in> anc t \<Longrightarrow> a \<in> nodeset t \<and> b \<in> nodeset t"
  by (induction t) auto

lemma rsel_antichain:
  "wf_rtree t \<Longrightarrow> a \<in> set (snd (rsel f t)) \<Longrightarrow> b \<in> set (snd (rsel f t)) \<Longrightarrow> (a, b) \<notin> anc t"
proof (induction t arbitrary: a b)
  case (RNode n v ks)
  let ?val = "foldl f 0 (map (\<lambda>k. fst (rsel f k)) ks)"
  show ?case
  proof (cases "?val > v")
    case False
    with RNode.prems have "a = n" "b = n" by (auto simp: Let_def)
    with RNode.prems(1) show ?thesis using anc_subset by fastforce
  next
    case True
    with RNode.prems obtain ka kb where ka: "ka \<in> set ks" "a \<in> set (snd (rsel f ka))"
      and kb: "kb \<in> set ks" "b \<in> set (snd (rsel f kb))"
      by (auto simp: Let_def)
    have a_in: "a \<in> nodeset ka" and b_in: "b \<in> nodeset kb"
      using ka kb rsel_subset by blast+
    show ?thesis
    proof
      assume "(a, b) \<in> anc (RNode n v ks)"
      then consider "a = n" | kc where "kc \<in> set ks" "(a, b) \<in> anc kc" by auto
      then show False
      proof cases
        case 1
        with a_in ka RNode.prems(1) show False by auto
      next
        case 2
        then have ac: "a \<in> nodeset kc" and bc: "b \<in> nodeset kc" using anc_subset by blast+
        obtain i j l where i: "i < length ks" "ks ! i = ka" and j: "j < length ks" "ks ! j = kb"
          and l: "l < length ks" "ks ! l = kc"
          using ka(1) kb(1) 2(1) by (metis in_set_conv_nth)
        have "i = l" using RNode.prems(1) i l a_in ac by fastforce
        moreover have "j = l" using RNode.prems(1) j l b_in bc by fastforce
        ultimately have "ka = kc" "kb = kc" using i j l by auto
        with RNode.IH [OF 2(1)] RNode.prems(1) ka kb 2 show False by auto
      qed
    qed
  qed
qed

lemma emb_child_in_anc:
  "emb T t \<Longrightarrow> a \<in> nodeset t \<Longrightarrow> children T a = Some cs \<Longrightarrow> b \<in> set cs \<Longrightarrow> (a, b) \<in> anc t"
proof (induction t)
  case (RNode n v ks)
  show ?case
  proof (cases "a = n")
    case True
    with RNode.prems have "b \<in> rroot ` set ks" by auto
    then obtain k where "k \<in> set ks" "b = rroot k" by auto
    moreover have "rroot k \<in> nodeset k" by (cases k) auto
    ultimately show ?thesis using True by auto
  next
    case False
    with RNode.prems obtain k where "k \<in> set ks" "a \<in> nodeset k" by auto
    with RNode show ?thesis by auto
  qed
qed

lemma emb_anc_step:
  "emb T t \<Longrightarrow> (a, b) \<in> anc t \<Longrightarrow> children T b = Some cs \<Longrightarrow> c \<in> set cs \<Longrightarrow> (a, c) \<in> anc t"
proof (induction t)
  case (RNode n v ks)
  from RNode.prems(2) consider k where "a = n" "k \<in> set ks" "b \<in> nodeset k"
    | k where "k \<in> set ks" "(a, b) \<in> anc k" by auto
  then show ?case
  proof cases
    case 1
    with RNode.prems have "(b, c) \<in> anc k" using emb_child_in_anc by auto
    then have "c \<in> nodeset k" using anc_subset by blast
    with 1 show ?thesis by auto
  next
    case 2
    with RNode show ?thesis by auto
  qed
qed

lemma isAncestor_in_anc:
  "isAncestor T a b \<Longrightarrow> emb T t \<Longrightarrow> a \<in> nodeset t \<Longrightarrow> (a, b) \<in> anc t"
  by (induction rule: isAncestor.induct) (auto intro: emb_child_in_anc emb_anc_step)

lemma rroot_in_nodeset: "rroot t \<in> nodeset t"
  by (cases t) auto

lemma rroot_rins: "rroot (rins p n v t) = rroot t"
  by (cases t) auto

lemma rins_id: "p \<notin> nodeset t \<Longrightarrow> rins p n v t = t"
  by (induction t) (auto simp: map_idI)

lemma nodeset_rins:
  "nodeset (rins p n v t) = (if p \<in> nodeset t then insert n (nodeset t) else nodeset t)"
proof (cases "p \<in> nodeset t")
  case False
  then show ?thesis by (simp add: rins_id)
next
  case True
  then have "nodeset (rins p n v t) = insert n (nodeset t)"
  proof (induction t)
    case (RNode m w ks)
    show ?case
    proof (cases "m = p")
      case True
      then show ?thesis by auto
    next
      case False
      with RNode.prems obtain k0 where k0: "k0 \<in> set ks" "p \<in> nodeset k0" by auto
      have each: "\<And>k. k \<in> set ks \<Longrightarrow>
          nodeset (rins p n v k) = (if p \<in> nodeset k then insert n (nodeset k) else nodeset k)"
        using RNode.IH by (simp add: rins_id)
      have "(\<Union>k\<in>set ks. nodeset (rins p n v k)) = insert n (\<Union>k\<in>set ks. nodeset k)"
        using each k0 by (auto split: if_splits)
      with False show ?thesis by (simp add: insert_commute)
    qed
  qed
  with True show ?thesis by simp
qed

lemma fits_Suc: "fits k t \<Longrightarrow> fits (Suc k) t"
proof (induction k t rule: fits.induct)
  case (1 t)
  then show ?case by simp
next
  case (2 k n v ks)
  then show ?case by (cases k) auto
qed

lemma fits_rins: "fits k t \<Longrightarrow> fits (Suc k) (rins p n v t)"
proof (induction k t rule: fits.induct)
  case (1 t)
  then show ?case by simp
next
  case (2 k n' v' ks)
  show ?case
  proof (cases "n' = p")
    case True
    with 2 show ?thesis by (auto simp: fits_Suc)
  next
    case False
    with 2 show ?thesis by auto
  qed
qed

lemma wf_rins: "wf_rtree t \<Longrightarrow> n \<notin> nodeset t \<Longrightarrow> wf_rtree (rins p n v t)"
proof (induction t)
  case (RNode m w ks)
  show ?case
  proof (cases "m = p")
    case True
    have "\<forall>i<length (ks @ [RNode n v []]). \<forall>j<length (ks @ [RNode n v []]). i \<noteq> j \<longrightarrow>
        nodeset ((ks @ [RNode n v []]) ! i) \<inter> nodeset ((ks @ [RNode n v []]) ! j) = {}"
    proof (intro allI impI)
      fix i j assume ij: "i < length (ks @ [RNode n v []])" "j < length (ks @ [RNode n v []])" "i \<noteq> j"
      have old: "\<And>i. i < length ks \<Longrightarrow> n \<notin> nodeset (ks ! i)"
        using RNode.prems(2) by (auto dest: nth_mem)
      show "nodeset ((ks @ [RNode n v []]) ! i) \<inter> nodeset ((ks @ [RNode n v []]) ! j) = {}"
        using ij RNode.prems(1) old by (auto simp: nth_append)
    qed
    with True RNode.prems show ?thesis by auto
  next
    case False
    have n_notin: "\<And>k. k \<in> set ks \<Longrightarrow> n \<notin> nodeset k" using RNode.prems(2) by auto
    have disj: "\<And>i j. i < length ks \<Longrightarrow> j < length ks \<Longrightarrow> i \<noteq> j \<Longrightarrow>
        nodeset (ks ! i) \<inter> nodeset (ks ! j) = {}" using RNode.prems(1) by auto
    have wfk: "\<forall>k\<in>set ks. wf_rtree (rins p n v k)"
      using RNode.IH RNode.prems(1) n_notin by auto
    have root: "m \<notin> (\<Union>k\<in>set ks. nodeset (rins p n v k))"
      using RNode.prems by (auto simp: nodeset_rins split: if_splits)
    have pair: "\<forall>i<length ks. \<forall>j<length ks. i \<noteq> j \<longrightarrow>
        nodeset (rins p n v (ks ! i)) \<inter> nodeset (rins p n v (ks ! j)) = {}"
    proof (intro allI impI)
      fix i j assume ij: "i < length ks" "j < length ks" "i \<noteq> j"
      have d: "nodeset (ks ! i) \<inter> nodeset (ks ! j) = {}" using disj ij by blast
      have ni: "n \<notin> nodeset (ks ! i)" "n \<notin> nodeset (ks ! j)" using n_notin ij by auto
      show "nodeset (rins p n v (ks ! i)) \<inter> nodeset (rins p n v (ks ! j)) = {}"
        using d ni by (auto simp: nodeset_rins split: if_splits)
    qed
    from False wfk root pair show ?thesis by simp
  qed
qed

lemma emb_frame:
  "emb T t \<Longrightarrow> \<forall>m\<in>nodeset t. values T' m = values T m \<and> children T' m = children T m \<Longrightarrow> emb T' t"
  by (induction t) auto

lemma emb_rins:
  assumes "emb T t" "wf_rtree t" "n \<notin> nodeset t" "p \<in> nodeset t" "children T p = Some cs"
    and T': "values T' = (values T)(n \<mapsto> v)" "children T' = (children T)(n \<mapsto> [], p \<mapsto> cs @ [n])"
  shows "emb T' (rins p n v t)"
  using assms(1-4)
proof (induction t)
  case (RNode m w ks)
  have pn: "p \<noteq> n" using RNode.prems by auto
  have mn: "m \<noteq> n" using RNode.prems by auto
  show ?case
  proof (cases "m = p")
    case True
    have "\<forall>k\<in>set ks. emb T' k"
    proof
      fix k assume k: "k \<in> set ks"
      have "\<forall>x\<in>nodeset k. x \<noteq> n \<and> x \<noteq> p" using k RNode.prems True by auto
      then have "\<forall>x\<in>nodeset k. values T' x = values T x \<and> children T' x = children T x"
        by (simp add: T')
      then show "emb T' k" using emb_frame k RNode.prems(1) by auto
    qed
    moreover have "cs = map rroot ks" using RNode.prems(1) True assms(5) by simp
    ultimately show ?thesis using True pn RNode.prems(1) by (simp add: T')
  next
    case False
    have "\<forall>k\<in>set ks. emb T' (rins p n v k)"
    proof
      fix k assume k: "k \<in> set ks"
      show "emb T' (rins p n v k)"
      proof (cases "p \<in> nodeset k")
        case True
        then show ?thesis using RNode.IH [OF k] RNode.prems k by auto
      next
        case False
        have "\<forall>x\<in>nodeset k. x \<noteq> n \<and> x \<noteq> p" using k RNode.prems False by auto
        then have "\<forall>x\<in>nodeset k. values T' x = values T x \<and> children T' x = children T x"
          by (simp add: T')
        then have "emb T' k" using emb_frame k RNode.prems(1) by auto
        then show ?thesis using False by (simp add: rins_id)
      qed
    qed
    then show ?thesis using False mn RNode.prems(1) by (simp add: T' rroot_rins)
  qed
qed

lemma treeInv_insertNode:
  assumes "treeInv k T" "insertNode n v p T = Some T'" "p \<noteq> Some n"
  shows "treeInv (Suc k) T'"
proof -
  from assms(1) consider
      (empty) "Root T = None" "values T = Map.empty" "children T = Map.empty"
    | (tree) t where "Root T = Some (rroot t)" "emb T t" "wf_rtree t" "fits k t"
        "dom (values T) = nodeset t" "dom (children T) = nodeset t"
    by (auto simp: treeInv_def)
  then show ?thesis
  proof cases
    case empty
    show ?thesis
    proof (cases p)
      case None
      with assms(2) empty have T': "T' = T\<lparr>values := (values T)(n \<mapsto> v),
          children := (children T)(n \<mapsto> []), Root := Some n\<rparr>"
        by (auto simp: insertNode_def dm_insert_def Let_def)
      have "Root T' = Some (rroot (RNode n v []))" "emb T' (RNode n v [])" "wf_rtree (RNode n v [])"
        "fits (Suc k) (RNode n v [])" "dom (values T') = nodeset (RNode n v [])"
        "dom (children T') = nodeset (RNode n v [])"
        using empty by (auto simp: T')
      then show ?thesis unfolding treeInv_def by blast
    next
      case (Some q)
      with assms(2,3) empty show ?thesis
        by (auto simp: insertNode_def dm_insert_def Let_def split: if_splits option.splits)
    qed
  next
    case tree
    from assms(2) have fresh0: "values T n = None \<or> children T n = None"
      by (auto simp: insertNode_def split: if_splits)
    have fresh: "n \<notin> nodeset t" using fresh0 tree(5,6) by (auto simp: domIff)
    then have vn: "values T n = None" and cn: "children T n = None"
      using tree(5,6) by (auto simp: domIff)
    show ?thesis
    proof (cases p)
      case None
      with assms(2) tree show ?thesis
        by (auto simp: insertNode_def dm_insert_def Let_def split: if_splits option.splits)
    next
      case (Some q)
      with assms(3) have qn: "q \<noteq> n" by auto
      from assms(2) Some vn cn qn obtain cs where cs: "children T q = Some cs"
        and T': "T' = T\<lparr>values := (values T)(n \<mapsto> v),
            children := (children T)(n \<mapsto> [], q \<mapsto> cs @ [n])\<rparr>"
        by (auto simp: insertNode_def dm_insert_def Let_def split: if_splits option.splits)
      have q_in: "q \<in> nodeset t" using cs tree(6) by (auto simp: domIff)
      have e: "emb T' (rins q n v t)"
        by (rule emb_rins [OF tree(2) tree(3) fresh q_in cs]) (simp_all add: T')
      have "Root T' = Some (rroot (rins q n v t))" using tree(1) by (simp add: T' rroot_rins)
      moreover have "wf_rtree (rins q n v t)" using wf_rins tree(3) fresh by blast
      moreover have "fits (Suc k) (rins q n v t)" using fits_rins tree(4) by blast
      moreover have "dom (values T') = nodeset (rins q n v t)"
        using tree(5) q_in by (auto simp: T' nodeset_rins)
      moreover have "dom (children T') = nodeset (rins q n v t)"
        using tree(6) q_in by (auto simp: T' nodeset_rins)
      ultimately show ?thesis using e unfolding treeInv_def by blast
    qed
  qed
qed

lemma treeInv_buildTree:
  "treeInv k T \<Longrightarrow> buildTree ins T = Some T' \<Longrightarrow> \<forall>(n, v, p)\<in>set ins. p \<noteq> Some n \<Longrightarrow>
   treeInv (k + length ins) T'"
proof (induction ins arbitrary: k T)
  case Nil
  then show ?case by simp
next
  case (Cons x ins)
  obtain n v p where x: "x = (n, v, p)" by (cases x) auto
  from Cons.prems(2) x obtain T1 where T1: "insertNode n v p T = Some T1" "buildTree ins T1 = Some T'"
    by (auto split: option.splits)
  have rest: "\<forall>(n, v, p)\<in>set ins. p \<noteq> Some n" and pn: "p \<noteq> Some n"
    using Cons.prems(3) x by auto
  have "treeInv (Suc k) T1" by (rule treeInv_insertNode [OF Cons.prems(1) T1(1) pn])
  then have "treeInv (Suc k + length ins) T'" using Cons.IH T1(2) rest by blast
  then show ?case by simp
qed

lemma treeInv_mono: "treeInv k T \<Longrightarrow> k \<le> k' \<Longrightarrow> treeInv k' T"
proof (induction k' )
  case 0 then show ?case by simp
next
  case (Suc k')
  show ?case
  proof (cases "k = Suc k'")
    case True with Suc show ?thesis by simp
  next
    case False
    with Suc have "treeInv k' T" by simp
    then show ?thesis unfolding treeInv_def using fits_Suc by blast
  qed
qed

lemma treeInv_findBest:
  assumes "treeInv k T"
  shows "\<exists>res. findBest k T f = Some res \<and> set res \<subseteq> dom (values T) \<and>
           (\<forall>a\<in>set res. \<forall>b\<in>set res. \<not> isAncestor T a b)"
proof -
  from assms consider
      (empty) "Root T = None"
    | (tree) t where "Root T = Some (rroot t)" "emb T t" "wf_rtree t" "fits k t"
        "dom (values T) = nodeset t"
    by (auto simp: treeInv_def)
  then show ?thesis
  proof cases
    case empty
    then show ?thesis by (simp add: findBest_def)
  next
    case tree
    have fb: "findBest k T f = Some (snd (rsel f t))"
      using findBest_rec_sim [OF tree(2) tree(4), of f "[]"] tree(1) by (simp add: findBest_def)
    have "\<forall>a\<in>set (snd (rsel f t)). \<forall>b\<in>set (snd (rsel f t)). \<not> isAncestor T a b"
    proof (intro ballI notI)
      fix a b assume ab: "a \<in> set (snd (rsel f t))" "b \<in> set (snd (rsel f t))" "isAncestor T a b"
      have "a \<in> nodeset t" using ab(1) rsel_subset by blast
      then have "(a, b) \<in> anc t" using isAncestor_in_anc ab(3) tree(2) by blast
      then show False using rsel_antichain tree(3) ab(1,2) by blast
    qed
    with fb tree(5) rsel_subset show ?thesis by auto
  qed
qed

text \<open>
  Claim C5. For every conflict tree, that is every tree that a sequence of
  \<^verbatim>\<open>insertNode\<close> calls builds from the empty tree with no node given as its own parent,
  and for every combining function, \<^verbatim>\<open>findBest\<close> returns (with fuel for as many nodes
  as were inserted) a sequence of loops no two of which are ancestor and descendant in
  the tree.
\<close>

theorem findBest_no_ancestor_pair:
  assumes "buildTree ins emptyTree = Some T"
    and "\<forall>(n, v, p)\<in>set ins. p \<noteq> Some n"
    and "length ins \<le> fuel"
  shows "\<exists>res. findBest fuel T combineFunc = Some res \<and>
           (\<forall>a\<in>set res. \<forall>b\<in>set res. \<not> isAncestor T a b)"
proof -
  have "treeInv 0 emptyTree" by (simp add: treeInv_def emptyTree_def)
  then have "treeInv (0 + length ins) T" using treeInv_buildTree assms(1,2) by blast
  then have "treeInv fuel T" using treeInv_mono assms(3) by simp
  then show ?thesis using treeInv_findBest by blast
qed

lemma exampleTree_built:
  "buildTree [(1, 5, None), (2, 3, Some 1), (3, 4, Some 1)] emptyTree = Some exampleTree"
  by (auto simp: insertNode_def dm_insert_def emptyTree_def exampleTree_def Let_def fun_eq_iff)

theorem findBest_no_ancestor_pair_witness:
  "buildTree [(1, 5, None), (2, 3, Some 1), (3, 4, Some 1)] emptyTree = Some exampleTree \<and>
   findBest 3 exampleTree (\<lambda>a b. a + b) = Some [2, 3] \<and>
   \<not> isAncestor exampleTree 2 3 \<and> \<not> isAncestor exampleTree 3 2"
proof -
  have fb: "findBest 3 exampleTree (\<lambda>a b. a + b) = Some [2, 3]"
    by (simp add: findBest_def exampleTree_def numeral_3_eq_3)
  have "\<exists>res. findBest 3 exampleTree (\<lambda>a b. a + b) = Some res \<and>
           (\<forall>a\<in>set res. \<forall>b\<in>set res. \<not> isAncestor exampleTree a b)"
    by (rule findBest_no_ancestor_pair [OF exampleTree_built]) simp_all
  with fb exampleTree_built show ?thesis by simp
qed

subsection \<open>cloneAndSetup with a constant condition\<close>










lemmas ex_defs = exampleFlags_def exampleAAA_def exampleExpanded_def exampleFunction_def
  exampleSetup_def exampleCond_def exampleResult_def noCheckFlags_def

lemma example_setupLoop:
  "setupLoop fl (exampleAAA c accs) (PreheaderTerminator 0) ExP [exampleExpanded 0] 0 =
   Some (exampleSetup @
         (if SSRBarrier fl then [CreateCall ExP riscv_ssr_barrier [ConstantInt Int32Ty 1]] else []))"
  by (simp add: ex_defs GenerateSSRSetup_def SSR_MAX_DIM_def accessEdits_def Let_def
      generateSSRBarrier_def)


subsection \<open>The argument of the barrier\<close>

text \<open>
  Claim C2 asks for a barrier on the data mover of each access. \<^verbatim>\<open>cloneAndSetup\<close>
  increments \<^verbatim>\<open>dmid\<close> between the setup and the barrier: with the barrier flag on, the
  single access of the example is set up as stream 0 and the barrier in front of the
  disable waits for stream 1.
\<close>

theorem cloneAndSetup_barrier_argument:
  "cloneAndSetup (exampleFlags\<lparr>SSRBarrier := True\<rparr>) (exampleAAA None [0])
     (PreheaderTerminator 0) (FirstInsertionPt 7) (ConstantInt Int1Ty 1) [exampleExpanded 0] =
   Some (exampleSetup @
         [CreateCall (FirstInsertionPt 7) riscv_ssr_barrier [ConstantInt Int32Ty 1],
          CreateCall (PreheaderTerminator 0) riscv_ssr_enable [],
          CreateCall (FirstInsertionPt 7) riscv_ssr_disable []])"
  by (simp add: cloneAndSetup_def NUM_SSR_def example_setupLoop generateSSREnDis_def exampleFlags_def
      del: setupLoop.simps)

subsection \<open>A second run\<close>

text \<open>
  Claim C7. On a function that carries the \<^verbatim>\<open>SSR\<close> attribute the pass returns the
  function as it is and reports all analyses preserved; a run that reports a change
  leaves the attribute on the function, so any later run, whatever the flags and the
  analysis, changes nothing.
\<close>

theorem run_on_tagged_function:
  "(SSRFnAttr \<in> fnAttrs F \<longrightarrow> run fl AAA F = Some (F, all_preserved)) \<and>
   (run fl AAA F = Some (F', none_preserved) \<longrightarrow> run fl' AAA' F' = Some (F', all_preserved))"
proof -
  have "SSRFnAttr \<in> fnAttrs F'" if "run fl AAA F = Some (F', none_preserved)"
    using that by (auto simp: run_def Let_def split: if_splits option.splits)
  moreover have "run fl' AAA' G = Some (G, all_preserved)" if "SSRFnAttr \<in> fnAttrs G" for fl' AAA' G
    using that by (simp add: run_def)
  ultimately show ?thesis by blast
qed

lemmas gain_defs = getEstGain_def getEstGain_memop_def getEstExpandCost_def
  repsLoop_def std_max_def EST_MEMOP_COST_def EST_MUL_COST_def EST_LOOP_TC_def INT_MAX_def

lemmas visit_defs = visitLoop_def isValidLoop_def getSingleExitBlock_def getExitBlock_def
  isValid_def CHECK_TYPE_def SSR_MAX_DIM_def std_sort_def dm_insert_def NUM_SSR_def Let_def
  insertNode_def emptyTree_def

lemmas emit_defs = expandInLoop_def GenerateTCDMCheck_def cloneAndSetup_def GenerateSSRSetup_def
  accessEdits_def generateSSRBarrier_def generateSSREnDis_def SSR_SCRATCHPAD_BEGIN_def
  SSR_SCRATCHPAD_END_def

lemmas run_defs = run_def initState_def findBest_def SSRFnAttr_def

lemma example_run:
  "run exampleFlags (exampleAAA (Some 1) [0]) exampleFunction = Some (exampleResult, none_preserved)"
  by (simp add: ex_defs gain_defs visit_defs emit_defs run_defs)

theorem run_on_tagged_function_witness:
  "run exampleFlags (exampleAAA (Some 1) [0]) exampleFunction = Some (exampleResult, none_preserved) \<and>
   SSRFnAttr \<in> fnAttrs exampleResult \<and>
   run exampleFlags (exampleAAA (Some 1) [0]) exampleResult = Some (exampleResult, all_preserved)"
  using run_on_tagged_function [where F = exampleFunction and fl = exampleFlags
      and AAA = "exampleAAA (Some 1) [0]" and F' = exampleResult and fl' = exampleFlags
      and AAA' = "exampleAAA (Some 1) [0]"] example_run
  by (simp add: exampleResult_def SSRFnAttr_def)

subsection \<open>A constant false condition in the pass\<close>



subsection \<open>The guard of the TCDM checks\<close>

lemma fst_tcdmLoop:
  "fst (tcdmLoop PhT exp (Cond, es)) = foldl (\<lambda>c E. And c (tcdmCheck E)) Cond exp"
  by (induction exp arbitrary: Cond es) (simp_all add: GenerateTCDMCheck_def tcdmCheck_def Let_def)

lemma getType_foldl_And: "getType (foldl (\<lambda>c E. And c (f E)) Cond exp) = getType Cond"
  by (induction exp arbitrary: Cond) simp_all

lemma and_bit_word: "a = 0 \<or> a = 1 \<Longrightarrow> and a (b :: u32) = 0 \<or> and a b = 1"
  by (auto simp: one_and_eq)

lemma i1_value: "getType v = Int1Ty \<Longrightarrow> evalValue env v = 0 \<or> evalValue env v = 1"
proof (induction v)
  case (And a b)
  then show ?case using and_bit_word by simp
qed auto

lemma and_eq_one: "a = 0 \<or> a = 1 \<Longrightarrow> b = 0 \<or> b = 1 \<Longrightarrow> (and a (b :: u32) = 1) = (a = 1 \<and> b = 1)"
  by auto

lemma eval_tcdmCheck:
  assumes "getType (LowerBound E) = Int32Ty" "getType (UpperBound E) = Int32Ty"
  shows "(evalValue env (tcdmCheck E) = 1) =
         (0x100000 \<le> evalValue env (LowerBound E) \<and> evalValue env (UpperBound E) \<le> 0x120000)"
  using assms by (simp add: tcdmCheck_def SSR_SCRATCHPAD_BEGIN_def SSR_SCRATCHPAD_END_def)

lemma eval_tcdmCheck_bit: "evalValue env (tcdmCheck E) = 0 \<or> evalValue env (tcdmCheck E) = 1"
  by (simp add: tcdmCheck_def)

lemma eval_foldl_tcdm:
  assumes "getType Cond = Int1Ty"
    and "\<forall>E\<in>set exp. getType (LowerBound E) = Int32Ty \<and> getType (UpperBound E) = Int32Ty"
  shows "(evalValue env (foldl (\<lambda>c E. And c (tcdmCheck E)) Cond exp) = 1) =
         (evalValue env Cond = 1 \<and>
          (\<forall>E\<in>set exp. 0x100000 \<le> evalValue env (LowerBound E) \<and>
                         evalValue env (UpperBound E) \<le> 0x120000))"
  using assms
proof (induction exp arbitrary: Cond)
  case Nil
  then show ?case by simp
next
  case (Cons E exp)
  have ty: "getType (And Cond (tcdmCheck E)) = Int1Ty" using Cons.prems(1) by simp
  have rest: "\<forall>E\<in>set exp. getType (LowerBound E) = Int32Ty \<and> getType (UpperBound E) = Int32Ty"
    using Cons.prems(2) by simp
  have step: "(evalValue env (And Cond (tcdmCheck E)) = 1) =
      (evalValue env Cond = 1 \<and> 0x100000 \<le> evalValue env (LowerBound E) \<and>
       evalValue env (UpperBound E) \<le> 0x120000)"
    using and_eq_one [OF i1_value [OF Cons.prems(1), of env] eval_tcdmCheck_bit [of env E]]
      eval_tcdmCheck [of E env] Cons.prems(2) by simp
  show ?case using Cons.IH [OF ty rest] step by auto
qed

lemma tcdmLoop_closed:
  "tcdmLoop PhT exp (Cond, es) =
     (foldl (\<lambda>c E. And c (tcdmCheck E)) Cond exp,
      es @ concat (map (\<lambda>i.
        [InsertInst PhT (ICmpULE (ConstantInt (getType (LowerBound (exp ! i))) SSR_SCRATCHPAD_BEGIN)
                           (LowerBound (exp ! i))),
         InsertInst PhT (ICmpULE (UpperBound (exp ! i))
                           (ConstantInt (getType (UpperBound (exp ! i))) SSR_SCRATCHPAD_END)),
         InsertInst PhT (tcdmCheck (exp ! i)),
         InsertInst PhT (And (foldl (\<lambda>c E. And c (tcdmCheck E)) Cond (take i exp))
                             (tcdmCheck (exp ! i)))]) [0..<length exp]))"
proof (induction exp arbitrary: Cond es)
  case Nil
  then show ?case by simp
next
  case (Cons E exp)
  have up: "[0..<length (E # exp)] = 0 # map Suc [0..<length exp]"
    by (simp add: upt_conv_Cons map_Suc_upt del: upt_Suc)
  show ?case unfolding up
    by (simp add: Cons.IH GenerateTCDMCheck_def tcdmCheck_def Let_def o_def del: upt_Suc)
qed


text \<open>
  Claim C8. With the TCDM checks enabled, \<^verbatim>\<open>expandInLoop\<close> inserts, for each expanded
  access in turn, four instructions in front of the preheader terminator: the unsigned
  comparisons \<open>0x100000 \<le> LowerBound\<close> and \<open>UpperBound \<le> 0x120000\<close>, their
  conjunction, and the conjunction of the condition so far with it. These follow the
  expansion of the accesses and are all the edits. The condition returned is the
  condition of the analysis with the check of every expanded access and-ed to it; at run
  time it is true exactly when the analysis' condition is true and every access has both
  (inclusive) bounds inside the scratchpad. The bounds are \<^verbatim>\<open>i32\<close> values.
\<close>

theorem expandInLoop_TCDM_guard:
  assumes "expandInLoop fl AAA accs L = Some (exp, Cond, es)"
    and "\<not> SSRNoTCDMCheck fl"
    and "\<forall>E\<in>set exp. getType (LowerBound E) = Int32Ty \<and> getType (UpperBound E) = Int32Ty"
  shows "\<exists>Cond0.
           expandAllAt AAA accs L (\<not> SSRNoIntersectCheck fl) (\<not> SSRNoBoundCheck fl) = (exp, Some Cond0) \<and>
           Cond = foldl (\<lambda>c E. And c
                     (And (ICmpULE (ConstantInt Int32Ty 0x100000) (LowerBound E))
                          (ICmpULE (UpperBound E) (ConstantInt Int32Ty 0x120000)))) Cond0 exp \<and>
           (\<forall>env. (evalValue env Cond = 1) =
              (evalValue env Cond0 = 1 \<and>
               (\<forall>E\<in>set exp. 0x100000 \<le> evalValue env (LowerBound E) \<and>
                              evalValue env (UpperBound E) \<le> 0x120000))) \<and>
           es = ExpandAllAt accs L # concat (map (\<lambda>i.
                  [InsertInst (PreheaderTerminator L)
                     (ICmpULE (ConstantInt Int32Ty 0x100000) (LowerBound (exp ! i))),
                   InsertInst (PreheaderTerminator L)
                     (ICmpULE (UpperBound (exp ! i)) (ConstantInt Int32Ty 0x120000)),
                   InsertInst (PreheaderTerminator L)
                     (And (ICmpULE (ConstantInt Int32Ty 0x100000) (LowerBound (exp ! i)))
                          (ICmpULE (UpperBound (exp ! i)) (ConstantInt Int32Ty 0x120000))),
                   InsertInst (PreheaderTerminator L)
                     (And (foldl (\<lambda>c E. And c
                              (And (ICmpULE (ConstantInt Int32Ty 0x100000) (LowerBound E))
                                   (ICmpULE (UpperBound E) (ConstantInt Int32Ty 0x120000))))
                            Cond0 (take i exp))
                          (And (ICmpULE (ConstantInt Int32Ty 0x100000) (LowerBound (exp ! i)))
                               (ICmpULE (UpperBound (exp ! i)) (ConstantInt Int32Ty 0x120000))))])
                [0..<length exp])"
proof -
  from assms(1,2) obtain Cond0 where
    ex: "expandAllAt AAA accs L (\<not> SSRNoIntersectCheck fl) (\<not> SSRNoBoundCheck fl) = (exp, Some Cond0)"
    and t: "tcdmLoop (PreheaderTerminator L) exp (Cond0, [ExpandAllAt accs L]) = (Cond, es)"
    and ty: "getType Cond = Int1Ty"
    by (auto simp: expandInLoop_def Let_def split: if_splits prod.splits option.splits)
  have c': "Cond = foldl (\<lambda>c E. And c (tcdmCheck E)) Cond0 exp"
    using t by (simp add: tcdmLoop_closed)
  have ty0: "getType Cond0 = Int1Ty" using ty c' by (simp add: getType_foldl_And)
  have chk: "tcdmCheck E = And (ICmpULE (ConstantInt Int32Ty 0x100000) (LowerBound E))
                               (ICmpULE (UpperBound E) (ConstantInt Int32Ty 0x120000))"
    if "E \<in> set exp" for E
    using assms(3) that by (simp add: tcdmCheck_def SSR_SCRATCHPAD_BEGIN_def SSR_SCRATCHPAD_END_def)
  have shape: "foldl (\<lambda>c E. And c (tcdmCheck E)) C xs =
      foldl (\<lambda>c E. And c
                     (And (ICmpULE (ConstantInt Int32Ty 0x100000) (LowerBound E))
                          (ICmpULE (UpperBound E) (ConstantInt Int32Ty 0x120000)))) C xs"
    if "set xs \<subseteq> set exp" for C xs
    using that by (intro foldl_cong) (auto simp: chk)
  have sem: "\<forall>env. (evalValue env Cond = 1) =
              (evalValue env Cond0 = 1 \<and>
               (\<forall>E\<in>set exp. 0x100000 \<le> evalValue env (LowerBound E) \<and>
                              evalValue env (UpperBound E) \<le> 0x120000))"
    using eval_foldl_tcdm [OF ty0 assms(3)] c' by simp
  have lo: "ICmpULE (ConstantInt (getType (LowerBound (exp ! i))) SSR_SCRATCHPAD_BEGIN) (LowerBound (exp ! i)) =
            ICmpULE (ConstantInt Int32Ty 0x100000) (LowerBound (exp ! i))"
    and hi: "ICmpULE (UpperBound (exp ! i)) (ConstantInt (getType (UpperBound (exp ! i))) SSR_SCRATCHPAD_END) =
            ICmpULE (UpperBound (exp ! i)) (ConstantInt Int32Ty 0x120000)"
    if "i < length exp" for i
    using assms(3) that by (simp_all add: SSR_SCRATCHPAD_BEGIN_def SSR_SCRATCHPAD_END_def)
  have es: "es = [ExpandAllAt accs L] @ concat (map (\<lambda>i.
        [InsertInst (PreheaderTerminator L)
           (ICmpULE (ConstantInt (getType (LowerBound (exp ! i))) SSR_SCRATCHPAD_BEGIN)
                           (LowerBound (exp ! i))),
         InsertInst (PreheaderTerminator L) (ICmpULE (UpperBound (exp ! i))
                           (ConstantInt (getType (UpperBound (exp ! i))) SSR_SCRATCHPAD_END)),
         InsertInst (PreheaderTerminator L) (tcdmCheck (exp ! i)),
         InsertInst (PreheaderTerminator L) (And (foldl (\<lambda>c E. And c (tcdmCheck E)) Cond0 (take i exp))
                             (tcdmCheck (exp ! i)))]) [0..<length exp])"
    using t by (simp add: tcdmLoop_closed)
  have es': "es = ExpandAllAt accs L # concat (map (\<lambda>i.
                  [InsertInst (PreheaderTerminator L)
                     (ICmpULE (ConstantInt Int32Ty 0x100000) (LowerBound (exp ! i))),
                   InsertInst (PreheaderTerminator L)
                     (ICmpULE (UpperBound (exp ! i)) (ConstantInt Int32Ty 0x120000)),
                   InsertInst (PreheaderTerminator L)
                     (And (ICmpULE (ConstantInt Int32Ty 0x100000) (LowerBound (exp ! i)))
                          (ICmpULE (UpperBound (exp ! i)) (ConstantInt Int32Ty 0x120000))),
                   InsertInst (PreheaderTerminator L)
                     (And (foldl (\<lambda>c E. And c
                              (And (ICmpULE (ConstantInt Int32Ty 0x100000) (LowerBound E))
                                   (ICmpULE (UpperBound E) (ConstantInt Int32Ty 0x120000))))
                            Cond0 (take i exp))
                          (And (ICmpULE (ConstantInt Int32Ty 0x100000) (LowerBound (exp ! i)))
                               (ICmpULE (UpperBound (exp ! i)) (ConstantInt Int32Ty 0x120000))))])
                [0..<length exp])"
    unfolding es
    by (simp only: append_Cons append_Nil, intro arg_cong [where f = "\<lambda>x. ExpandAllAt accs L # concat x"] map_cong refl)
       (simp add: lo hi chk shape set_take_subset)
  from ex c' shape [of exp Cond0] sem es' show ?thesis by auto
qed


lemma example_expandInLoop_two:
  "\<exists>Cond es. expandInLoop exampleFlags exampleAAA2 [0, 1] 0 =
     Some ([exampleExpanded 0, exampleWrite], Cond, es)"
  by (simp add: ex_defs exampleAAA2_def exampleWrite_def expandInLoop_def GenerateTCDMCheck_def
      NUM_SSR_def Let_def)

theorem expandInLoop_TCDM_guard_witness:
  "expandInLoop exampleFlags exampleAAA2 [0, 1] 0 =
     Some ([exampleExpanded 0, exampleWrite], exampleGuard, exampleGuardEdits) \<and>
   evalValue (\<lambda>i. if i = 40 then 1 else if i = 23 \<or> i = 35 then 0x100000 else 0x120000) exampleGuard = 1 \<and>
   evalValue (\<lambda>i. if i = 40 then 1 else if i = 23 then 0x100000 else if i = 35 then 0xFFFFF else 0x120000)
     exampleGuard \<noteq> 1 \<and>
   evalValue (\<lambda>i. if i = 40 then 1 else if i = 23 \<or> i = 35 then 0x100000 else if i = 36 then 0x120001 else 0x120000)
     exampleGuard \<noteq> 1 \<and>
   evalValue (\<lambda>i. if i = 40 then 0 else if i = 23 \<or> i = 35 then 0x100000 else 0x120000) exampleGuard \<noteq> 1"
proof -
  obtain Cond es where e: "expandInLoop exampleFlags exampleAAA2 [0, 1] 0 =
     Some ([exampleExpanded 0, exampleWrite], Cond, es)"
    using example_expandInLoop_two by blast
  have f: "\<not> SSRNoTCDMCheck exampleFlags" by (simp add: exampleFlags_def)
  have t: "\<forall>E\<in>set [exampleExpanded 0, exampleWrite].
             getType (LowerBound E) = Int32Ty \<and> getType (UpperBound E) = Int32Ty"
    by (simp add: exampleExpanded_def exampleWrite_def)
  have up: "[0..<2] = [0, Suc 0]" by (simp add: upt_rec)
  from expandInLoop_TCDM_guard [OF e f t]
  have c: "Cond = exampleGuard" and es: "es = exampleGuardEdits"
    and sem: "(evalValue env Cond = 1) =
      (evalValue env (Opaque Int1Ty 40) = 1 \<and>
       0x100000 \<le> evalValue env (Opaque Int32Ty 23) \<and> evalValue env (Opaque Int32Ty 24) \<le> 0x120000 \<and>
       0x100000 \<le> evalValue env (Opaque Int32Ty 35) \<and> evalValue env (Opaque Int32Ty 36) \<le> 0x120000)" for env
    by (auto simp: exampleAAA2_def exampleAAA_def exampleExpanded_def exampleWrite_def exampleFlags_def
        exampleGuard_def exampleGuardEdits_def up)
  show ?thesis using e sem unfolding c es by simp
qed


subsection \<open>The gain estimate\<close>

lemma fold_add_sum_list:
  "fold (\<lambda>i (cost :: i32). cost + g i) xs c = c + sum_list (map g xs)"
  by (induction xs arbitrary: c) (simp_all add: add.assoc)

lemma getEstExpandCost_sum:
  "getEstExpandCost AAA A dim =
     of_nat (getExpressionSize (getBaseAddr AAA A dim)) +
     (\<Sum>d = 1..<dim. of_nat (getExpressionSize (getStep AAA A d)) +
                     of_nat (getExpressionSize (getRep AAA A d)) + EST_MUL_COST +
                     (if d > 1 then 1 else 0))"
proof -
  let ?g = "\<lambda>d. (of_nat (getExpressionSize (getStep AAA A d)) +
                     of_nat (getExpressionSize (getRep AAA A d)) + EST_MUL_COST +
                     (if d > 1 then 1 else 0) :: i32)"
  have "getEstExpandCost AAA A dim =
      fold (\<lambda>i cost. cost + ?g i) [1..<dim] (of_nat (getExpressionSize (getBaseAddr AAA A dim)))"
    unfolding getEstExpandCost_def Let_def
    by (intro fold_cong) (auto simp: fun_eq_iff)
  also have "\<dots> = of_nat (getExpressionSize (getBaseAddr AAA A dim)) + sum_list (map ?g [1..<dim])"
    by (rule fold_add_sum_list)
  also have "sum_list (map ?g [1..<dim]) = (\<Sum>d = 1..<dim. ?g d)"
    by (simp add: interv_sum_list_conv_sum_set_nat)
  finally show ?thesis .
qed

lemma conflictLoop_Some:
  "conflictLoop AAA L accs vis ps gain = Some g \<Longrightarrow> g = gain - intersectCost AAA L accs vis ps"
  by (induction AAA L accs vis ps gain rule: conflictLoop.induct)
     (auto simp: Let_def split: if_splits)

lemma fold_pair_split:
  assumes "\<And>d r cl. step d (r, cl) = (h d r, insert (k d) cl)"
  shows "fold step ds (r, cl) = (fold h ds r, cl \<union> k ` set ds)"
  by (induction ds arbitrary: r cl) (simp_all add: assms)

lemma repsLoop_split:
  "repsLoop AAA A dim (r, cl) =
     (fold (\<lambda>d reps. std_max (reps * loopTC AAA A d) reps) (rev [1..<Suc dim]) r,
      cl \<union> getLoop AAA A ` {1..dim})"
proof -
  have s: "set (rev [1..<Suc dim]) = {1..dim}" by auto
  show ?thesis
    unfolding repsLoop_def
    by (subst fold_pair_split [where h = "\<lambda>d reps. std_max (reps * loopTC AAA A d) reps"
          and k = "getLoop AAA A"])
       (simp_all only: loopTC_def Let_def s split_conv)
qed

lemma tripProduct_fold:
  "tripProduct AAA A dim =
     fold (\<lambda>d reps. std_max (reps * loopTC AAA A d) reps) (rev [1..<Suc dim]) 1"
  by (simp add: tripProduct_def repsLoop_split)

lemma repsLoop_eq:
  "repsLoop AAA A dim (1, cl) = (tripProduct AAA A dim, cl \<union> getLoop AAA A ` {1..dim})"
  by (simp add: tripProduct_fold repsLoop_split)

lemma gainLoop_Some:
  "gainLoop m fl AAA L accs As (gain, vis, cl) = Some (g', vis', cl') \<Longrightarrow>
   g' = gain + m * (\<Sum>A\<leftarrow>As. tripProduct AAA A (loopToDimension AAA A L))
          - (\<Sum>A\<leftarrow>As. getEstExpandCost AAA A (loopToDimension AAA A L))
          - checkCost fl AAA L accs vis As \<and>
   cl' = cl \<union> (\<Union>A\<in>set As. getLoop AAA A ` {1..loopToDimension AAA A L})"
proof (induction As arbitrary: gain vis cl)
  case Nil
  then show ?case by simp
next
  case (Cons A As)
  let ?dim = "loopToDimension AAA A L"
  let ?g1 = "gain - getEstExpandCost AAA A ?dim"
  obtain g2 where g2: "(if \<not> SSRNoIntersectCheck fl
               then conflictLoop AAA L accs (insert A vis) (getConflicts AAA A L) ?g1
               else Some ?g1) = Some g2"
    using Cons.prems by (auto simp: Let_def split: option.splits)
  have g2_eq: "g2 = ?g1 - (if SSRNoIntersectCheck fl then 0
      else intersectCost AAA L accs (insert A vis) (getConflicts AAA A L))"
    using g2 conflictLoop_Some by (auto split: if_splits)
  let ?g3 = "(if \<not> SSRNoTCDMCheck fl then g2 - 4 else g2) + m * tripProduct AAA A ?dim"
  have rec: "gainLoop m fl AAA L accs As (?g3, insert A vis, cl \<union> getLoop AAA A ` {1..?dim}) =
      Some (g', vis', cl')"
    using Cons.prems g2 by (simp add: Let_def repsLoop_eq)
  from Cons.IH [OF rec] show ?case
    by (auto simp: g2_eq algebra_simps)
qed

lemma getEstGain_memop_Some:
  assumes "getEstGain_memop m fl AAA Accs L = Some g"
  shows "g = m * (\<Sum>A\<leftarrow>Accs. tripProduct AAA A (loopToDimension AAA A L))
          - (\<Sum>A\<leftarrow>Accs. getEstExpandCost AAA A (loopToDimension AAA A L))
          - checkCost fl AAA L (set Accs) {} Accs
          - (if SSRNoBoundCheck fl then 0 else 2 * of_nat (card (contributingLoops AAA L Accs)))"
proof -
  from assms obtain g0 vis cl where gl: "gainLoop m fl AAA L (set Accs) Accs (0, {}, {}) = Some (g0, vis, cl)"
    and g: "g = (if \<not> SSRNoBoundCheck fl then g0 - 2 * of_nat (card cl) else g0)"
    by (auto simp: getEstGain_memop_def split: option.splits)
  from gainLoop_Some [OF gl] g show ?thesis
    by (auto simp: contributingLoops_def)
qed

lemma sum_list_sub_word:
  "(\<Sum>A\<leftarrow>As. (f A - g A :: i32)) = (\<Sum>A\<leftarrow>As. f A) - (\<Sum>A\<leftarrow>As. g A)"
  by (induction As) simp_all

lemma sum_list_mult_word:
  "(\<Sum>A\<leftarrow>As. (m * f A :: i32)) = m * (\<Sum>A\<leftarrow>As. f A)"
  by (induction As) (simp_all add: algebra_simps)

text \<open>
  Claim C1, amended. The gain estimator subtracts, per access \<open>a\<close>, the expression size
  of the base address at \<open>dim(a)\<close> plus, for every dimension \<open>d\<close> from 1 to
  \<open>dim(a) - 1\<close>, the expression sizes of step and repetition, \<^verbatim>\<open>EST_MUL_COST\<close>, and 1 more
  for \<open>d > 1\<close>: the dimension \<open>dim(a)\<close> itself is not counted. The estimate is the sum
  over the accesses of \<^verbatim>\<open>EST_MEMOP_COST\<close> times the trip product less this cost, less the
  cost of the checks.
\<close>

theorem getEstGain_expand_cost:
  assumes "getEstGain fl AAA Accs L = Some gain"
  shows "gain =
     (\<Sum>A\<leftarrow>Accs.
        EST_MEMOP_COST * tripProduct AAA A (loopToDimension AAA A L) -
        (of_nat (getExpressionSize (getBaseAddr AAA A (loopToDimension AAA A L))) +
         (\<Sum>d = 1..<loopToDimension AAA A L.
            of_nat (getExpressionSize (getStep AAA A d)) +
            of_nat (getExpressionSize (getRep AAA A d)) + EST_MUL_COST +
            (if d > 1 then 1 else 0))))
     - checkCost fl AAA L (set Accs) {} Accs
     - (if SSRNoBoundCheck fl then 0 else 2 * of_nat (card (contributingLoops AAA L Accs)))"
proof -
  have "(\<Sum>A\<leftarrow>Accs.
        EST_MEMOP_COST * tripProduct AAA A (loopToDimension AAA A L) -
        (of_nat (getExpressionSize (getBaseAddr AAA A (loopToDimension AAA A L))) +
         (\<Sum>d = 1..<loopToDimension AAA A L.
            of_nat (getExpressionSize (getStep AAA A d)) +
            of_nat (getExpressionSize (getRep AAA A d)) + EST_MUL_COST +
            (if d > 1 then 1 else 0)))) =
      EST_MEMOP_COST * (\<Sum>A\<leftarrow>Accs. tripProduct AAA A (loopToDimension AAA A L))
          - (\<Sum>A\<leftarrow>Accs. getEstExpandCost AAA A (loopToDimension AAA A L))"
    by (simp only: sum_list_sub_word sum_list_mult_word flip: getEstExpandCost_sum)
  then show ?thesis
    using getEstGain_memop_Some [of EST_MEMOP_COST fl AAA Accs L gain] assms
    by (simp add: getEstGain_def)
qed

lemma example_gain_noChecks:
  "getEstGain noCheckFlags (exampleAAA None [0]) [0] 0 = Some 49"
  by (simp add: ex_defs gain_defs)

text \<open>
  Claim C1 as stated fails for an access of dimension 1: with all checks off the estimate
  is \<open>2 * 25 - 1 = 49\<close>, where the formula with \<open>d\<close> up to \<open>dim\<close> inclusive gives 44.
\<close>

theorem getEstGain_expand_cost_counterexample:
  "getEstGain noCheckFlags (exampleAAA None [0]) [0] 0 = Some 49 \<and>
   EST_MEMOP_COST * tripProduct (exampleAAA None [0]) 0 (loopToDimension (exampleAAA None [0]) 0 0) -
     spec_expand_cost (exampleAAA None [0]) 0 (loopToDimension (exampleAAA None [0]) 0 0) = 44"
  by (simp add: example_gain_noChecks tripProduct_def spec_expand_cost_def ex_defs gain_defs)

lemma example_gain_two:
  "getEstGain exampleFlags (exampleAAA None [1, 0]) [0, 1] 0 = Some 1281"
  by (simp add: ex_defs gain_defs upt_rec card_insert_if)

theorem getEstGain_expand_cost_witness:
  "getEstGain exampleFlags (exampleAAA None [1, 0]) [0, 1] 0 = Some 1281 \<and>
   (1281 :: i32) =
     (\<Sum>A\<leftarrow>[0, 1].
        EST_MEMOP_COST * tripProduct (exampleAAA None [1, 0]) A (Suc A) -
        (1 + (\<Sum>d = 1..<Suc A. 1 + 1 + EST_MUL_COST + (if d > 1 then 1 else 0))))
     - checkCost exampleFlags (exampleAAA None [1, 0]) 0 (set [0, 1]) {} [0, 1]
     - 2 * of_nat (card (contributingLoops (exampleAAA None [1, 0]) 0 [0, 1]))"
proof -
  have "(if SSRNoBoundCheck exampleFlags then 0
         else 2 * of_nat (card (contributingLoops (exampleAAA None [1, 0]) 0 [0, 1]))) =
        (2 * of_nat (card (contributingLoops (exampleAAA None [1, 0]) 0 [0, 1])) :: i32)"
    by (simp add: exampleFlags_def)
  moreover have "loopToDimension (exampleAAA None [1, 0]) A 0 = Suc A"
    "getExpressionSize (getBaseAddr (exampleAAA None [1, 0]) A d) = 1"
    "getExpressionSize (getStep (exampleAAA None [1, 0]) A d) = 1"
    "getExpressionSize (getRep (exampleAAA None [1, 0]) A d) = 1" for A d
    by (simp_all add: exampleAAA_def)
  ultimately show ?thesis
    using getEstGain_expand_cost [OF example_gain_two] example_gain_two by simp
qed

lemma std_max_ge: "sint b \<le> sint (std_max a b)"
  by (simp add: std_max_def)

lemma tripProduct_ge_1: "1 \<le> sint (tripProduct AAA A dim)"
proof -
  have "1 \<le> sint r \<Longrightarrow> 1 \<le> sint (fold (\<lambda>d reps. std_max (reps * loopTC AAA A d) reps) ds r)" for ds r
  proof (induction ds arbitrary: r)
    case Nil
    then show ?case by simp
  next
    case (Cons d ds)
    have "1 \<le> sint (std_max (r * loopTC AAA A d) r)"
      using std_max_ge [of r "r * loopTC AAA A d"] Cons.prems by linarith
    then show ?case using Cons.IH by simp
  qed
  then show ?thesis by (simp add: tripProduct_fold)
qed

lemma getEstGain_memop_linear:
  assumes "getEstGain_memop m fl AAA Accs L = Some g" "getEstGain_memop m' fl AAA Accs L = Some g'"
  shows "g' = g + (m' - m) * (\<Sum>A\<leftarrow>Accs. tripProduct AAA A (loopToDimension AAA A L))"
  unfolding getEstGain_memop_Some [OF assms(1)] getEstGain_memop_Some [OF assms(2)]
  by (simp add: algebra_simps)

lemma word_of_int_sum_list_sint:
  "word_of_int (\<Sum>A\<leftarrow>As. sint (f A :: i32)) = (\<Sum>A\<leftarrow>As. f A)"
  by (induction As) simp_all

text \<open>
  Raising \<^verbatim>\<open>EST_MEMOP_COST\<close> from \<open>m\<close> to \<open>m'\<close> adds \<open>m' - m\<close> times the sum of the trip
  products to the estimate, in 32-bit arithmetic, and every trip product is at least 1;
  the estimate does not decrease as long as the new value does not exceed \<^verbatim>\<open>INT_MAX\<close>.
\<close>

lemma getEstGain_memop_monotone_in_range:
  assumes g: "getEstGain_memop m fl AAA Accs L = Some g"
    and g': "getEstGain_memop m' fl AAA Accs L = Some g'"
    and le: "sint m \<le> sint m'"
    and fit: "sint g + (sint m' - sint m) *
                (\<Sum>A\<leftarrow>Accs. sint (tripProduct AAA A (loopToDimension AAA A L))) < 2 ^ 31"
  shows "sint g \<le> sint g' \<and>
         g' = g + (m' - m) * (\<Sum>A\<leftarrow>Accs. tripProduct AAA A (loopToDimension AAA A L)) \<and>
         (\<forall>A. 1 \<le> sint (tripProduct AAA A (loopToDimension AAA A L)))"
proof -
  let ?S = "\<Sum>A\<leftarrow>Accs. sint (tripProduct AAA A (loopToDimension AAA A L))"
  let ?x = "sint g + (sint m' - sint m) * ?S"
  have lin: "g' = g + (m' - m) * (\<Sum>A\<leftarrow>Accs. tripProduct AAA A (loopToDimension AAA A L))"
    by (rule getEstGain_memop_linear [OF g g'])
  have S0: "0 \<le> ?S"
  proof (rule sum_list_nonneg)
    fix x assume "x \<in> set (map (\<lambda>A. sint (tripProduct AAA A (loopToDimension AAA A L))) Accs)"
    then obtain A where "x = sint (tripProduct AAA A (loopToDimension AAA A L))" by auto
    then show "0 \<le> x" using tripProduct_ge_1 [of AAA A "loopToDimension AAA A L"] by simp
  qed
  have ge: "sint g \<le> ?x" using le S0 by simp
  have lo: "- (2 ^ 31) \<le> ?x" using sint_ge [of g] ge by simp
  have "g' = word_of_int ?x"
    by (simp add: lin word_of_int_sum_list_sint)
  then have "sint g' = sint (word_of_int ?x :: i32)" by (rule arg_cong)
  also have "\<dots> = signed_take_bit 31 ?x" unfolding sint_sbintrunc' by simp
  also have "\<dots> = ?x" using lo fit by (simp add: signed_take_bit_int_eq_self)
  finally show ?thesis using ge lin tripProduct_ge_1 by simp
qed

lemma example_gain_memop_1:
  "getEstGain_memop 1 exampleFlags (exampleAAA (Some 1073741924) [0]) [0] 0 = Some 1073741917"
  by (simp add: ex_defs gain_defs)

lemma example_gain_memop_2:
  "getEstGain_memop 2 exampleFlags (exampleAAA (Some 1073741924) [0]) [0] 0 = Some 2147483841"
  by (simp add: ex_defs gain_defs)

lemma example_gain_int_max:
  "getEstGain exampleFlags (exampleAAA (Some 2147483647) [0]) [0] 0 = Some 4294967287"
  by (simp add: ex_defs gain_defs)

text \<open>
  Claim C9 asks that a larger \<^verbatim>\<open>EST_MEMOP_COST\<close> never lowers the estimate.
  \<^verbatim>\<open>getEstGain\<close> guards the product \<^verbatim>\<open>reps * loopTC\<close> against overflow, but not
  \<^verbatim>\<open>gain += EST_MEMOP_COST * reps\<close>. For one access with the constant trip count
  \<open>2^30 + 100\<close> the estimate is 1073741917 with a memory operation cost of 1 and, with the
  cost 2 of the code, the product leaves the range of \<^verbatim>\<open>int\<close>: in 32 bits the estimate is
  -2147483455. With a trip count at the cap \<^verbatim>\<open>INT_MAX\<close> the estimate of the code is -9.
\<close>

theorem getEstGain_product_overflow:
  "getEstGain_memop 1 exampleFlags (exampleAAA (Some 1073741924) [0]) [0] 0 = Some 1073741917 \<and>
   getEstGain exampleFlags (exampleAAA (Some 1073741924) [0]) [0] 0 = Some 2147483841 \<and>
   getEstGain_memop 2 exampleFlags (exampleAAA (Some 1073741924) [0]) [0] 0 = Some 2147483841 \<and>
   sint (1 :: i32) \<le> sint (2 :: i32) \<and>
   sint (2147483841 :: i32) = - 2147483455 \<and> sint (1073741917 :: i32) = 1073741917 \<and>
   getEstGain exampleFlags (exampleAAA (Some 2147483647) [0]) [0] 0 = Some 4294967287 \<and>
   sint (4294967287 :: i32) = - 9"
  using example_gain_memop_1 example_gain_memop_2 example_gain_int_max
  by (simp add: getEstGain_def EST_MEMOP_COST_def)

lemma example_gain_memop_2':
  "getEstGain_memop 2 exampleFlags (exampleAAA None [0]) [0] 0 = Some 43"
  by (simp add: ex_defs gain_defs)

lemma example_gain_memop_3':
  "getEstGain_memop 3 exampleFlags (exampleAAA None [0]) [0] 0 = Some 68"
  by (simp add: ex_defs gain_defs)

lemma example_dim: "loopToDimension (exampleAAA c accs) A L = Suc A"
  by (simp add: exampleAAA_def)

lemma example_tripProduct: "tripProduct (exampleAAA None [0]) 0 (Suc 0) = 25"
  by (simp add: tripProduct_def ex_defs gain_defs)

lemma getEstGain_memop_monotone_example:
  "getEstGain_memop 2 exampleFlags (exampleAAA None [0]) [0] 0 = Some 43 \<and>
   getEstGain_memop 3 exampleFlags (exampleAAA None [0]) [0] 0 = Some 68 \<and>
   sint (43 :: i32) \<le> sint (68 :: i32) \<and> (68 :: i32) = 43 + (3 - 2) * 25"
proof -
  have le: "sint (2 :: i32) \<le> sint (3 :: i32)" by simp
  have fit: "sint (43 :: i32) + (sint (3 :: i32) - sint (2 :: i32)) *
      (\<Sum>A\<leftarrow>[0]. sint (tripProduct (exampleAAA None [0]) A (loopToDimension (exampleAAA None [0]) A 0))) < 2 ^ 31"
    by (simp add: example_dim example_tripProduct)
  from getEstGain_memop_monotone_in_range [OF example_gain_memop_2' example_gain_memop_3' le fit]
  show ?thesis by (simp add: example_gain_memop_2' example_gain_memop_3')
qed

subsection \<open>visitLoop and the traversal\<close>

lemma visitLoop_Some:
  assumes "visitLoop fl AAA L Parent known (poss, tree) = Some ((poss', tree'), r)"
  shows "\<exists>valid gain.
    filterValid AAA L (if known \<or> \<not> isValidLoop AAA L then []
                       else getExpandableAccesses AAA L (SSRConflictFreeOnly fl)) = Some valid \<and>
    poss' = poss(L \<mapsto> (case poss L of None \<Rightarrow> [] | Some l0 \<Rightarrow> l0) @
                                 take NUM_SSR (std_sort (comp_acc AAA L) valid)) \<and>
    getEstGain fl AAA ((case poss L of None \<Rightarrow> [] | Some l0 \<Rightarrow> l0) @
                       take NUM_SSR (std_sort (comp_acc AAA L) valid)) L = Some gain \<and>
    insertNode L (std_max 0 gain) Parent tree = Some tree' \<and>
    r = (\<not> (known \<or> \<not> isValidLoop AAA L))"
  using assms
  by (auto simp: visitLoop_def Let_def dm_insert_def split: option.splits if_splits)

lemma treeInv_dom: "treeInv k T \<Longrightarrow> dom (values T) = dom (children T)"
  unfolding treeInv_def by (elim disjE exE conjE; simp)

lemma insertNode_fresh:
  assumes "treeInv k T" "insertNode n v p T = Some T'"
  shows "n \<notin> dom (values T) \<and> values T' = (values T)(n \<mapsto> v) \<and>
         (p \<noteq> None \<longrightarrow> Root T' = Root T) \<and> (p = None \<longrightarrow> Root T' = Some n)"
proof -
  have "values T n = None \<or> children T n = None"
    using assms(2) by (auto simp: insertNode_def split: if_splits)
  then have f: "values T n = None" using treeInv_dom [OF assms(1)] by (auto simp: domIff)
  then show ?thesis using assms(2)
    by (auto simp: insertNode_def dm_insert_def Let_def split: if_splits option.splits)
qed

lemma visitLoop_tree:
  assumes v: "visitLoop fl AAA L Parent known (poss, tree) = Some ((poss', tree'), r)"
    and inv: "treeInv k tree"
    and par: "\<forall>p. Parent = Some p \<longrightarrow> p \<in> dom (values tree)"
    and rec: "\<forall>L'\<in>dom (values tree). gainRecorded fl AAA poss tree L'"
  shows "treeInv (Suc k) tree' \<and> dom (values tree') = insert L (dom (values tree)) \<and>
         L \<notin> dom (values tree) \<and>
         (\<forall>L'\<in>dom (values tree'). gainRecorded fl AAA poss' tree' L') \<and>
         (Parent \<noteq> None \<longrightarrow> Root tree' = Root tree) \<and> (Parent = None \<longrightarrow> Root tree' = Some L)"
proof -
  from visitLoop_Some [OF v] obtain l gain where
    p': "poss' = poss(L \<mapsto> l)" and g: "getEstGain fl AAA l L = Some gain"
    and ins: "insertNode L (std_max 0 gain) Parent tree = Some tree'"
    by blast
  from insertNode_fresh [OF inv ins] have fresh: "L \<notin> dom (values tree)"
    and vals: "values tree' = (values tree)(L \<mapsto> std_max 0 gain)"
    and root: "Parent \<noteq> None \<longrightarrow> Root tree' = Root tree" "Parent = None \<longrightarrow> Root tree' = Some L"
    by auto
  have "Parent \<noteq> Some L" using par fresh by auto
  then have 1: "treeInv (Suc k) tree'" by (rule treeInv_insertNode [OF inv ins])
  have 2: "dom (values tree') = insert L (dom (values tree))" by (simp add: vals)
  have 3: "gainRecorded fl AAA poss' tree' L'" if "L' \<in> dom (values tree')" for L'
  proof (cases "L' = L")
    case True
    then show ?thesis using p' g vals by (auto simp: gainRecorded_def)
  next
    case False
    then have "L' \<in> dom (values tree)" using that 2 by auto
    then have "gainRecorded fl AAA poss tree L'" using rec by blast
    then show ?thesis using False p' vals by (auto simp: gainRecorded_def)
  qed
  from 1 2 3 fresh root show ?thesis by blast
qed

lemma traverse_inv:
  "traverse fl AAA wl st = Some (poss', tree') \<Longrightarrow>
   treeInv k (snd st) \<Longrightarrow>
   \<forall>(par, l)\<in>set wl. \<forall>p. par = Some p \<longrightarrow> p \<in> dom (values (snd st)) \<Longrightarrow>
   \<forall>L'\<in>dom (values (snd st)). gainRecorded fl AAA (fst st) (snd st) L' \<Longrightarrow>
   treeInv (k + wlCount wl) tree' \<and>
   dom (values tree') = dom (values (snd st)) \<union> set (wlIds wl) \<and>
   (\<forall>L'\<in>dom (values tree'). gainRecorded fl AAA poss' tree' L') \<and>
   ((\<forall>(par, l)\<in>set wl. par \<noteq> None) \<longrightarrow> Root tree' = Root (snd st))"
proof (induction fl AAA wl st arbitrary: k rule: traverse.induct)
  case (1 fl AAA st)
  then show ?case by (simp add: wlCount_def wlIds_def)
next
  case (2 fl AAA Parent L subs worklist st)
  obtain poss tree where st: "st = (poss, tree)" by (cases st)
  from "2.prems"(1) obtain poss1 tree1 r where
    v0: "visitLoop fl AAA L Parent (L \<in> ssrInvalidLoops AAA) st = Some ((poss1, tree1), r)"
    and t: "traverse fl AAA (worklist @ map (Pair (Some L)) subs) (poss1, tree1) = Some (poss', tree')"
    by (auto split: option.splits)
  have v: "visitLoop fl AAA L Parent (L \<in> ssrInvalidLoops AAA) (poss, tree) = Some ((poss1, tree1), r)"
    using v0 by (simp add: st)
  have par: "\<forall>p. Parent = Some p \<longrightarrow> p \<in> dom (values tree)" using "2.prems"(3) st by auto
  from visitLoop_tree [OF v _ par] "2.prems"(2,4) st
  have 1: "treeInv (Suc k) tree1" and 2: "dom (values tree1) = insert L (dom (values tree))"
    and 3: "\<forall>L'\<in>dom (values tree1). gainRecorded fl AAA poss1 tree1 L'"
    and root: "Parent \<noteq> None \<longrightarrow> Root tree1 = Root tree"
    by auto
  have par1: "\<forall>(par, l)\<in>set (worklist @ map (Pair (Some L)) subs).
      \<forall>p. par = Some p \<longrightarrow> p \<in> dom (values (snd (poss1, tree1)))"
    using "2.prems"(3) 2 st by auto
  have IH: "treeInv (Suc k + wlCount (worklist @ map (Pair (Some L)) subs)) tree' \<and>
    dom (values tree') = dom (values tree1) \<union> set (wlIds (worklist @ map (Pair (Some L)) subs)) \<and>
    (\<forall>L'\<in>dom (values tree'). gainRecorded fl AAA poss' tree' L') \<and>
    ((\<forall>(par, l)\<in>set (worklist @ map (Pair (Some L)) subs). par \<noteq> None) \<longrightarrow> Root tree' = Root tree1)"
    using "2.IH" [OF v0 refl t, of "Suc k"] 1 par1 3
    by simp
  have cnt: "Suc k + wlCount (worklist @ map (Pair (Some L)) subs) =
      k + wlCount ((Parent, Loop L subs) # worklist)"
    by (simp add: wlCount_def o_def split_def)
  have ids: "insert L (set (wlIds (worklist @ map (Pair (Some L)) subs))) =
      set (wlIds ((Parent, Loop L subs) # worklist))"
    by (auto simp: wlIds_def)
  show ?case using IH 2 root unfolding cnt ids [symmetric] by (auto simp: st)
qed

subsection \<open>The candidate set\<close>

lemma candidateOrder_comp: "candidateOrder AAA L A B = (\<not> comp_acc AAA L B A)"
  by (auto simp: candidateOrder_def comp_acc_def Let_def)

lemma set_insert_sorted: "set (insert_sorted cmp x xs) = insert x (set xs)"
  by (induction xs) auto

lemma length_insert_sorted: "length (insert_sorted cmp x xs) = Suc (length xs)"
  by (induction xs) auto

lemma mset_insert_sorted: "mset (insert_sorted cmp x xs) = add_mset x (mset xs)"
  by (induction xs) auto

lemma mset_std_sort: "mset (std_sort cmp xs) = mset xs"
proof -
  have "mset (fold (insert_sorted cmp) xs acc) = mset xs + mset acc" for acc
    by (induction xs arbitrary: acc) (simp_all add: mset_insert_sorted)
  then show ?thesis by (simp add: std_sort_def)
qed

lemma set_std_sort: "set (std_sort cmp xs) = set xs"
  using mset_std_sort [of cmp xs] by (metis set_mset_mset)

lemma sorted_insert_sorted:
  "sorted_wrt (candidateOrder AAA L) xs \<Longrightarrow>
   sorted_wrt (candidateOrder AAA L) (insert_sorted (comp_acc AAA L) x xs)"
proof (induction xs)
  case Nil
  then show ?case by simp
next
  case (Cons y ys)
  show ?case
  proof (cases "comp_acc AAA L x y")
    case True
    have "candidateOrder AAA L x y" using True by (auto simp: candidateOrder_def comp_acc_def Let_def)
    moreover have "candidateOrder AAA L x z" if "z \<in> set ys" for z
      using that Cons.prems \<open>candidateOrder AAA L x y\<close> by (fastforce simp: candidateOrder_def)
    ultimately show ?thesis using True Cons.prems by simp
  next
    case False
    then have "candidateOrder AAA L y x" by (simp add: candidateOrder_comp)
    then show ?thesis using False Cons by (auto simp: set_insert_sorted)
  qed
qed

lemma sorted_std_sort: "sorted_wrt (candidateOrder AAA L) (std_sort (comp_acc AAA L) xs)"
proof -
  have "sorted_wrt (candidateOrder AAA L) acc \<Longrightarrow>
        sorted_wrt (candidateOrder AAA L) (fold (insert_sorted (comp_acc AAA L)) xs acc)" for acc
    by (induction xs arbitrary: acc) (simp_all add: sorted_insert_sorted)
  then show ?thesis by (simp add: std_sort_def)
qed

lemma sorted_wrt_take': "sorted_wrt P xs \<Longrightarrow> sorted_wrt P (take n xs)"
  by (metis append_take_drop_id sorted_wrt_append)

lemma candidate_set_any_sort:
  assumes "mset ys = mset valid" and "sorted_wrt (\<lambda>A B. \<not> comp_acc AAA L B A) ys"
  shows "length (take NUM_SSR ys) \<le> 3 \<and> set (take NUM_SSR ys) \<subseteq> set valid \<and>
         sorted_wrt (\<lambda>A B. loopToDimension AAA A L \<le> loopToDimension AAA B L \<and>
                       (loopToDimension AAA A L = loopToDimension AAA B L \<and> isWrite AAA A
                          \<longrightarrow> isWrite AAA B)) (take NUM_SSR ys)"
proof -
  have eq: "(\<lambda>A B. \<not> comp_acc AAA L B A) =
            (\<lambda>A B. loopToDimension AAA A L \<le> loopToDimension AAA B L \<and>
                       (loopToDimension AAA A L = loopToDimension AAA B L \<and> isWrite AAA A
                          \<longrightarrow> isWrite AAA B))"
    by (auto simp: comp_acc_def Let_def fun_eq_iff)
  have "set ys = set valid" using assms(1) by (metis set_mset_mset)
  then have "set (take NUM_SSR ys) \<subseteq> set valid" using set_take_subset [of NUM_SSR ys] by simp
  moreover have "length (take NUM_SSR ys) \<le> 3" by (simp add: NUM_SSR_def)
  moreover have "sorted_wrt (\<lambda>A B. \<not> comp_acc AAA L B A) (take NUM_SSR ys)"
    by (rule sorted_wrt_take' [OF assms(2)])
  ultimately show ?thesis unfolding eq by simp
qed

lemma filterValid_subset: "filterValid AAA L accs = Some valid \<Longrightarrow> set valid \<subseteq> set accs"
  by (induction accs arbitrary: valid) (auto split: option.splits if_splits)

lemma filterValid_valid:
  "filterValid AAA L accs = Some valid \<Longrightarrow> A \<in> set valid \<Longrightarrow> isValid AAA A L = Some True"
  by (induction accs arbitrary: valid) (auto split: option.splits if_splits)

text \<open>
  Claim C3, amended. The candidate set \<^verbatim>\<open>visitLoop\<close> builds for a loop \<open>L\<close> (one without
  an entry in \<^verbatim>\<open>possible\<close>, as every loop is when it is visited) has at most 3 accesses,
  all of them valid expandable accesses of \<open>L\<close>, ordered so that accesses with smaller
  dimension precede those with larger dimension, and reads precede writes when the
  dimensions tie.
\<close>

theorem visitLoop_candidate_set:
  assumes "visitLoop fl AAA L Parent known (poss, tree) = Some ((poss', tree'), r)"
    and "poss L = None"
  shows "\<exists>l. poss' L = Some l \<and> length l \<le> 3 \<and>
           sorted_wrt (\<lambda>A B. loopToDimension AAA A L \<le> loopToDimension AAA B L \<and>
                         (loopToDimension AAA A L = loopToDimension AAA B L \<and> isWrite AAA A
                            \<longrightarrow> isWrite AAA B)) l \<and>
           set l \<subseteq> set (getExpandableAccesses AAA L (SSRConflictFreeOnly fl)) \<and>
           (\<forall>A\<in>set l. isValid AAA A L = Some True)"
proof -
  from visitLoop_Some [OF assms(1)] assms(2) obtain valid where
    v: "filterValid AAA L (if known \<or> \<not> isValidLoop AAA L then []
                       else getExpandableAccesses AAA L (SSRConflictFreeOnly fl)) = Some valid"
    and p: "poss' = poss(L \<mapsto> take NUM_SSR (std_sort (comp_acc AAA L) valid))"
    by auto
  let ?l = "take NUM_SSR (std_sort (comp_acc AAA L) valid)"
  have sub: "set ?l \<subseteq> set valid" using set_take_subset [of NUM_SSR] set_std_sort by fastforce
  have 1: "poss' L = Some ?l" using p by simp
  have 2: "length ?l \<le> 3" by (simp add: NUM_SSR_def)
  have 3: "sorted_wrt (candidateOrder AAA L) ?l" by (rule sorted_wrt_take' [OF sorted_std_sort])
  have 4: "set ?l \<subseteq> set (getExpandableAccesses AAA L (SSRConflictFreeOnly fl))"
    using sub filterValid_subset [OF v] by (auto split: if_splits)
  have 5: "\<forall>A\<in>set ?l. isValid AAA A L = Some True"
    using sub filterValid_valid [OF v] by auto
  have eq: "candidateOrder AAA L = (\<lambda>A B. loopToDimension AAA A L \<le> loopToDimension AAA B L \<and>
                         (loopToDimension AAA A L = loopToDimension AAA B L \<and> isWrite AAA A
                            \<longrightarrow> isWrite AAA B))"
    by (auto simp: candidateOrder_def fun_eq_iff)
  from 1 2 3 4 5 show ?thesis unfolding eq by blast
qed

lemma example_visitLoop_two:
  "visitLoop exampleFlags (exampleAAA None [1, 0]) 0 None False (Map.empty, emptyTree) =
   Some (([0 \<mapsto> [0, 1]], \<lparr>values = [0 \<mapsto> 1281], children = [0 \<mapsto> []], Root = Some 0\<rparr>), True)"
  by (simp add: ex_defs gain_defs visit_defs comp_acc_def upt_rec card_insert_if)

text \<open>
  Claim C3 as stated, with larger dimensions first, fails: of the valid accesses 1
  (dimension 2) and 0 (dimension 1) the candidate set lists access 0 first.
\<close>

theorem visitLoop_candidate_set_counterexample:
  "visitLoop exampleFlags (exampleAAA None [1, 0]) 0 None False (Map.empty, emptyTree) =
   Some (([0 \<mapsto> [0, 1]], \<lparr>values = [0 \<mapsto> 1281], children = [0 \<mapsto> []], Root = Some 0\<rparr>), True) \<and>
   loopToDimension (exampleAAA None [1, 0]) 0 0 = 1 \<and>
   loopToDimension (exampleAAA None [1, 0]) 1 0 = 2"
  using example_visitLoop_two by (simp add: example_dim)

theorem visitLoop_candidate_set_witness:
  "visitLoop exampleFlags (exampleAAA None [1, 0]) 0 None False (Map.empty, emptyTree) =
   Some (([0 \<mapsto> [0, 1]], \<lparr>values = [0 \<mapsto> 1281], children = [0 \<mapsto> []], Root = Some 0\<rparr>), True) \<and>
   length [0 :: AccId, 1] \<le> 3 \<and>
   loopToDimension (exampleAAA None [1, 0]) 0 0 \<le> loopToDimension (exampleAAA None [1, 0]) 1 0"
  using visitLoop_candidate_set [OF example_visitLoop_two] example_visitLoop_two
  by simp

subsection \<open>The values in the tree\<close>

lemma std_max_0: "std_max 0 g = (if sint g < 0 then 0 else g)"
proof (cases "sint g = 0")
  case True
  then have "g = 0" by (simp add: signed_eq_0_iff)
  then show ?thesis by (simp add: std_max_def)
next
  case False
  then show ?thesis by (auto simp: std_max_def)
qed

lemma foldl_add_zero: "\<forall>x\<in>set xs. x = (0 :: u32) \<Longrightarrow> foldl (\<lambda>a b. a + b) 0 xs = 0"
  by (induction xs) auto

lemma rsel_all_zero:
  "emb T t \<Longrightarrow> \<forall>n\<in>nodeset t. values T n = Some 0 \<Longrightarrow> rsel (\<lambda>a b. a + b) t = (0, [rroot t])"
proof (induction t)
  case (RNode n v ks)
  have v: "v = 0" using RNode.prems by auto
  have "\<forall>k\<in>set ks. fst (rsel (\<lambda>a b. a + b) k) = 0" using RNode by auto
  then have "foldl (\<lambda>a b. a + b) 0 (map (\<lambda>k. fst (rsel (\<lambda>a b. a + b) k)) ks) = 0"
    by (intro foldl_add_zero) auto
  then show ?case by (simp add: v)
qed

lemma treeInv_findBest_zero:
  assumes "treeInv k T" "Root T = Some r" "\<forall>n\<in>dom (values T). values T n = Some 0"
  shows "findBest k T (\<lambda>a b. a + b) = Some [r]"
proof -
  from assms(1,2) obtain t where t: "Root T = Some (rroot t)" "emb T t" "fits k t"
    "dom (values T) = nodeset t"
    by (auto simp: treeInv_def)
  have "rsel (\<lambda>a b. a + b) t = (0, [rroot t])" using rsel_all_zero t(2,4) assms(3) by auto
  then show ?thesis
    using findBest_rec_sim [OF t(2,3), of "\<lambda>a b. a + b" "[]"] t(1) assms(2)
    by (simp add: findBest_def)
qed

lemma traverse_top:
  assumes "traverse fl AAA [(None, T)] (poss, emptyTree) = Some (poss', tree')"
  shows "treeInv (loopCount T) tree' \<and> dom (values tree') = set (loopIds T) \<and>
         (\<forall>L\<in>dom (values tree'). gainRecorded fl AAA poss' tree' L) \<and>
         Root tree' = Some (loopId T)"
proof -
  obtain L subs where T: "T = Loop L subs" by (cases T)
  from assms obtain poss1 tree1 r where
    v: "visitLoop fl AAA L None (L \<in> ssrInvalidLoops AAA) (poss, emptyTree) = Some ((poss1, tree1), r)"
    and t: "traverse fl AAA (map (Pair (Some L)) subs) (poss1, tree1) = Some (poss', tree')"
    by (auto simp: T split: option.splits)
  have e: "treeInv 0 emptyTree" by (simp add: treeInv_def emptyTree_def)
  have d: "dom (values emptyTree) = {}" by (simp add: emptyTree_def)
  from visitLoop_tree [OF v e] d
  have 1: "treeInv (Suc 0) tree1" and 2: "dom (values tree1) = {L}"
    and 3: "\<forall>L'\<in>dom (values tree1). gainRecorded fl AAA poss1 tree1 L'"
    and root: "Root tree1 = Some L"
    by auto
  have par: "\<forall>(par, l)\<in>set (map (Pair (Some L)) subs).
      \<forall>p. par = Some p \<longrightarrow> p \<in> dom (values (snd (poss1, tree1)))"
    using 2 by auto
  have some: "\<forall>(par, l)\<in>set (map (Pair (Some L)) subs). par \<noteq> None" by auto
  from traverse_inv [OF t _ par, of "Suc 0"] 1 3 some
  have r: "treeInv (Suc 0 + wlCount (map (Pair (Some L)) subs)) tree'"
    "dom (values tree') = dom (values tree1) \<union> set (wlIds (map (Pair (Some L)) subs))"
    "\<forall>L'\<in>dom (values tree'). gainRecorded fl AAA poss' tree' L'"
    "Root tree' = Root tree1"
    by auto
  have c: "Suc 0 + wlCount (map (Pair (Some L)) subs) = loopCount T"
    by (simp add: wlCount_def T o_def)
  have i: "insert L (set (wlIds (map (Pair (Some L)) subs))) = set (loopIds T)"
    by (auto simp: wlIds_def T)
  have "dom (values tree') = set (loopIds T)" using r(2) 2 i by simp
  then show ?thesis using r(1,3,4) root unfolding c by (simp add: T)
qed

lemma traverse_findBest:
  assumes "traverse fl AAA [(None, T)] (poss, emptyTree) = Some (poss', tree')"
  shows "\<exists>best. findBest (loopCount T) tree' f = Some best \<and> set best \<subseteq> set (loopIds T)"
  using traverse_top [OF assms] treeInv_findBest [of "loopCount T" tree' f] by auto

text \<open>
  Claim C10. After the traversal of the nest of a top-level loop \<open>T\<close>, every loop \<open>L\<close> of
  the nest has its candidate set in \<^verbatim>\<open>possible\<close> and the tree holds for it the estimated
  gain of that set, with 0 in place of a negative gain. A negative gain does not keep a
  loop from being chosen: when no loop of the nest has a positive gain, \<^verbatim>\<open>findBest\<close> with
  the sum as combining function chooses the top-level loop.
\<close>

theorem traverse_records_clamped_gain:
  assumes "traverse fl AAA [(None, T)] (poss, emptyTree) = Some (poss', tree')"
  shows "(\<forall>L\<in>set (loopIds T). \<exists>l gain.
            poss' L = Some l \<and> getEstGain fl AAA l L = Some gain \<and>
            values tree' L = Some (if sint gain < 0 then 0 else gain)) \<and>
         ((\<forall>L\<in>set (loopIds T). \<forall>l gain.
              poss' L = Some l \<longrightarrow> getEstGain fl AAA l L = Some gain \<longrightarrow> sint gain \<le> 0) \<longrightarrow>
          findBest (loopCount T) tree' (\<lambda>a b. a + b) = Some [loopId T])"
proof -
  from traverse_top [OF assms]
  have inv: "treeInv (loopCount T) tree'" and dom: "dom (values tree') = set (loopIds T)"
    and rec: "\<forall>L\<in>dom (values tree'). gainRecorded fl AAA poss' tree' L"
    and root: "Root tree' = Some (loopId T)"
    by auto
  have 1: "\<forall>L\<in>set (loopIds T). \<exists>l gain.
            poss' L = Some l \<and> getEstGain fl AAA l L = Some gain \<and>
            values tree' L = Some (if sint gain < 0 then 0 else gain)"
    using rec dom by (auto simp: gainRecorded_def std_max_0)
  have 2: "findBest (loopCount T) tree' (\<lambda>a b. a + b) = Some [loopId T]"
    if neg: "\<forall>L\<in>set (loopIds T). \<forall>l gain.
              poss' L = Some l \<longrightarrow> getEstGain fl AAA l L = Some gain \<longrightarrow> sint gain \<le> 0"
  proof -
    have "\<forall>n\<in>dom (values tree'). values tree' n = Some 0"
    proof
      fix n assume n: "n \<in> dom (values tree')"
      then have "gainRecorded fl AAA poss' tree' n" using rec by blast
      then obtain l gain where lg: "poss' n = Some l" "getEstGain fl AAA l n = Some gain"
        "values tree' n = Some (std_max 0 gain)"
        unfolding gainRecorded_def by blast
      then have "sint gain \<le> 0" using neg n dom by blast
      then show "values tree' n = Some 0" using lg(3) by (simp add: std_max_def)
    qed
    then show ?thesis by (rule treeInv_findBest_zero [OF inv root])
  qed
  from 1 2 show ?thesis by blast
qed

lemma example_gain: "getEstGain exampleFlags (exampleAAA (Some 1) [0]) [0] 0 = Some (- 5)"
  by (simp add: ex_defs gain_defs)

lemma example_traverse:
  "traverse exampleFlags (exampleAAA (Some 1) [0]) [(None, Loop 0 [])] (Map.empty, emptyTree) =
   Some ([0 \<mapsto> [0]], \<lparr>values = [0 \<mapsto> 0], children = [0 \<mapsto> []], Root = Some 0\<rparr>)"
  by (simp add: ex_defs gain_defs visit_defs)

theorem traverse_records_clamped_gain_witness:
  "traverse exampleFlags (exampleAAA (Some 1) [0]) [(None, Loop 0 [])] (Map.empty, emptyTree) =
     Some ([0 \<mapsto> [0]], \<lparr>values = [0 \<mapsto> 0], children = [0 \<mapsto> []], Root = Some 0\<rparr>) \<and>
   getEstGain exampleFlags (exampleAAA (Some 1) [0]) [0] 0 = Some (- 5) \<and>
   sint (- 5 :: i32) < 0 \<and>
   findBest 1 \<lparr>values = [0 \<mapsto> 0], children = [0 \<mapsto> []], Root = Some 0\<rparr> (\<lambda>a b. a + b) = Some [0]"
  using traverse_records_clamped_gain [OF example_traverse] example_traverse example_gain
  by simp

subsection \<open>A function without candidates\<close>

lemma emptyPoss_cases: "emptyPoss poss \<Longrightarrow> poss L = None \<or> poss L = Some []"
  by (cases "poss L") (auto simp: emptyPoss_def)

lemma length_std_sort: "length (std_sort cmp xs) = length xs"
proof -
  have "length (fold (insert_sorted cmp) xs acc) = length xs + length acc" for acc
  proof (induction xs arbitrary: acc)
    case Nil
    then show ?case by simp
  next
    case (Cons x xs)
    have "length (insert_sorted cmp x acc) = Suc (length acc)" by (induction acc) auto
    then show ?case using Cons by simp
  qed
  then show ?thesis by (simp add: std_sort_def)
qed

lemma candidateSet_empty:
  "candidateSet fl AAA L = Some [] \<Longrightarrow>
   filterValid AAA L (if L \<in> ssrInvalidLoops AAA \<or> \<not> isValidLoop AAA L then []
           else getExpandableAccesses AAA L (SSRConflictFreeOnly fl)) = Some []"
proof -
  assume "candidateSet fl AAA L = Some []"
  then obtain valid where v: "filterValid AAA L (if L \<in> ssrInvalidLoops AAA \<or> \<not> isValidLoop AAA L then []
           else getExpandableAccesses AAA L (SSRConflictFreeOnly fl)) = Some valid"
    and t: "take NUM_SSR (std_sort (comp_acc AAA L) valid) = []"
    by (auto simp: candidateSet_def)
  from t have "length (std_sort (comp_acc AAA L) valid) = 0" by (simp add: NUM_SSR_def)
  then have "valid = []" by (simp add: length_std_sort)
  with v show ?thesis by simp
qed

lemma getEstGain_Nil: "getEstGain fl AAA [] L = Some 0"
  by (simp add: getEstGain_def getEstGain_memop_def)

lemma visitLoop_empty:
  assumes "candidateSet fl AAA L = Some []" "poss L = None \<or> poss L = Some []"
  shows "visitLoop fl AAA L Parent (L \<in> ssrInvalidLoops AAA) (poss, tree) =
         (case insertNode L 0 Parent tree of
            None \<Rightarrow> None
          | Some tree' \<Rightarrow> Some ((poss(L \<mapsto> []), tree'),
                              \<not> (L \<in> ssrInvalidLoops AAA \<or> \<not> isValidLoop AAA L)))"
  using candidateSet_empty [OF assms(1)] assms(2)
  by (auto simp: visitLoop_def Let_def std_sort_def dm_insert_def getEstGain_Nil std_max_def
      split: option.splits)

lemma insertNode_child_Some:
  assumes "dom (values T) = dom (children T)" "n \<notin> dom (values T)" "p \<in> dom (values T)"
  shows "\<exists>T'. insertNode n v (Some p) T = Some T'"
proof -
  have "values T n = None" "children T n = None" using assms(1,2) by (auto simp: domIff)
  moreover obtain cs where "children T p = Some cs" using assms(1,3) by auto
  moreover have "p \<noteq> n" using assms(2,3) by auto
  ultimately show ?thesis by (simp add: insertNode_def dm_insert_def Let_def)
qed

lemma traverse_empty_Some:
  "treeInv k (snd st) \<Longrightarrow>
   distinct (wlIds wl) \<Longrightarrow>
   set (wlIds wl) \<inter> dom (values (snd st)) = {} \<Longrightarrow>
   \<forall>(par, l)\<in>set wl. \<exists>p. par = Some p \<and> p \<in> dom (values (snd st)) \<Longrightarrow>
   \<forall>L\<in>set (wlIds wl). candidateSet fl AAA L = Some [] \<Longrightarrow>
   emptyPoss (fst st) \<Longrightarrow>
   \<exists>poss' tree'. traverse fl AAA wl st = Some (poss', tree') \<and> emptyPoss poss'"
proof (induction fl AAA wl st arbitrary: k rule: traverse.induct)
  case (1 fl AAA st)
  then show ?case by (cases st) auto
next
  case (2 fl AAA Parent L subs worklist st)
  obtain poss tree where st: "st = (poss, tree)" by (cases st)
  have ids: "wlIds ((Parent, Loop L subs) # worklist) = L # concat (map loopIds subs) @ wlIds worklist"
    by (simp add: wlIds_def)
  have ids': "wlIds (worklist @ map (Pair (Some L)) subs) = wlIds worklist @ concat (map loopIds subs)"
    by (simp add: wlIds_def o_def)
  from "2.prems"(4) obtain p where p: "Parent = Some p" "p \<in> dom (values tree)" by (auto simp: st)
  have fresh: "L \<notin> dom (values tree)" using "2.prems"(3) by (auto simp: ids st)
  have inv: "treeInv k tree" using "2.prems"(1) by (simp add: st)
  obtain tree1 where ins: "insertNode L 0 (Some p) tree = Some tree1"
    using insertNode_child_Some [OF treeInv_dom [OF inv] fresh p(2)] by blast
  have cand: "candidateSet fl AAA L = Some []" using "2.prems"(5) by (simp add: ids)
  have pe: "poss L = None \<or> poss L = Some []" using "2.prems"(6) emptyPoss_cases by (auto simp: st)
  let ?r = "\<not> (L \<in> ssrInvalidLoops AAA \<or> \<not> isValidLoop AAA L)"
  have v: "visitLoop fl AAA L Parent (L \<in> ssrInvalidLoops AAA) st = Some ((poss(L \<mapsto> []), tree1), ?r)"
    using visitLoop_empty [where poss = poss and Parent = "Some p" and tree = tree, OF cand pe] ins
    by (simp add: st p(1))
  have pn: "Some p \<noteq> Some L" using p(2) fresh by auto
  have inv1: "treeInv (Suc k) tree1" by (rule treeInv_insertNode [OF inv ins pn])
  have dom1: "dom (values tree1) = insert L (dom (values tree))"
    using insertNode_fresh [OF inv ins] by auto
  have a: "treeInv (Suc k) (snd (poss(L \<mapsto> []), tree1))" using inv1 by simp
  have b: "distinct (wlIds (worklist @ map (Pair (Some L)) subs))"
    using "2.prems"(2) by (auto simp: ids ids')
  have c: "set (wlIds (worklist @ map (Pair (Some L)) subs)) \<inter>
      dom (values (snd (poss(L \<mapsto> []), tree1))) = {}"
    using "2.prems"(2,3) by (auto simp: ids ids' dom1 st)
  have d: "\<forall>(par, l)\<in>set (worklist @ map (Pair (Some L)) subs).
      \<exists>p. par = Some p \<and> p \<in> dom (values (snd (poss(L \<mapsto> []), tree1)))"
    using "2.prems"(4) by (fastforce simp: dom1 st)
  have e: "\<forall>L\<in>set (wlIds (worklist @ map (Pair (Some L)) subs)). candidateSet fl AAA L = Some []"
    using "2.prems"(5) by (auto simp: ids ids')
  have f: "emptyPoss (fst (poss(L \<mapsto> []), tree1))"
    using "2.prems"(6) by (auto simp: emptyPoss_def st)
  from "2.IH" [OF v refl a b c d e f] show ?case using v by simp
qed

lemma traverse_top_empty:
  assumes "distinct (loopIds T)" "\<forall>L\<in>set (loopIds T). candidateSet fl AAA L = Some []"
    and "emptyPoss poss"
  shows "\<exists>poss' tree'. traverse fl AAA [(None, T)] (poss, emptyTree) = Some (poss', tree') \<and>
           emptyPoss poss'"
proof -
  obtain L subs where T: "T = Loop L subs" by (cases T)
  let ?tree1 = "emptyTree\<lparr>values := [L \<mapsto> 0], children := [L \<mapsto> []], Root := Some L\<rparr>"
  have ins: "insertNode L 0 None emptyTree = Some ?tree1"
    by (simp add: insertNode_def dm_insert_def emptyTree_def)
  have cand: "candidateSet fl AAA L = Some []" using assms(2) by (simp add: T)
  have pe: "poss L = None \<or> poss L = Some []" using assms(3) by (rule emptyPoss_cases)
  let ?r = "\<not> (L \<in> ssrInvalidLoops AAA \<or> \<not> isValidLoop AAA L)"
  have v: "visitLoop fl AAA L None (L \<in> ssrInvalidLoops AAA) (poss, emptyTree) =
      Some ((poss(L \<mapsto> []), ?tree1), ?r)"
    using visitLoop_empty [where poss = poss and Parent = None and tree = emptyTree, OF cand pe] ins
    by simp
  have e: "treeInv 0 emptyTree" by (simp add: treeInv_def emptyTree_def)
  have inv1: "treeInv (Suc 0) ?tree1" by (rule treeInv_insertNode [OF e ins]) simp
  have ids': "wlIds (map (Pair (Some L)) subs) = concat (map loopIds subs)"
    by (simp add: wlIds_def o_def)
  have "\<exists>poss' tree'. traverse fl AAA (map (Pair (Some L)) subs) (poss(L \<mapsto> []), ?tree1) =
      Some (poss', tree') \<and> emptyPoss poss'"
  proof (rule traverse_empty_Some [where k = "Suc 0"])
    show "treeInv (Suc 0) (snd (poss(L \<mapsto> []), ?tree1))" using inv1 by simp
    show "distinct (wlIds (map (Pair (Some L)) subs))" using assms(1) by (simp add: ids' T)
    show "set (wlIds (map (Pair (Some L)) subs)) \<inter> dom (values (snd (poss(L \<mapsto> []), ?tree1))) = {}"
      using assms(1) by (auto simp: ids' T)
    show "\<forall>(par, l)\<in>set (map (Pair (Some L)) subs).
        \<exists>p. par = Some p \<and> p \<in> dom (values (snd (poss(L \<mapsto> []), ?tree1)))"
      by auto
    show "\<forall>L\<in>set (wlIds (map (Pair (Some L)) subs)). candidateSet fl AAA L = Some []"
      using assms(2) by (auto simp: ids' T)
    show "emptyPoss (fst (poss(L \<mapsto> []), ?tree1))" using assms(3) by (auto simp: emptyPoss_def)
  qed
  then show ?thesis using v by (simp add: T)
qed

lemma expandBest_empty:
  "\<forall>L\<in>set best. possible st L = Some [] \<Longrightarrow> expandBest fl AAA best st = Some st"
  by (induction best) auto

lemma setupBest_empty: "conds st = Map.empty \<Longrightarrow> setupBest fl AAA st best = Some []"
  by (induction best) auto

lemma secondPhase_empty:
  "conds st = Map.empty \<Longrightarrow> \<forall>T\<in>set toploops. bestLoops st (loopId T) \<noteq> None \<Longrightarrow>
   secondPhase fl AAA st toploops = Some []"
  by (induction toploops) (auto simp: setupBest_empty)

lemma loopId_in_loopIds: "loopId T \<in> set (loopIds T)"
  by (cases T) simp

lemma firstPhase_empty:
  "distinct (concat (map loopIds toploops)) \<Longrightarrow>
   \<forall>L\<in>set (concat (map loopIds toploops)). candidateSet fl AAA L = Some [] \<Longrightarrow>
   \<not> changed st \<Longrightarrow> conds st = Map.empty \<Longrightarrow> emitted st = [] \<Longrightarrow>
   emptyPoss (possible st) \<Longrightarrow> dom (trees st) \<inter> loopId ` set toploops = {} \<Longrightarrow>
   \<exists>st'. firstPhase fl AAA toploops st = Some st' \<and> \<not> changed st' \<and> conds st' = Map.empty \<and>
         emitted st' = [] \<and> (\<forall>T\<in>set toploops. bestLoops st' (loopId T) \<noteq> None) \<and>
         (\<forall>x. bestLoops st x \<noteq> None \<longrightarrow> bestLoops st' x \<noteq> None)"
proof (induction toploops arbitrary: st)
  case Nil
  then show ?case by simp
next
  case (Cons T toploops)
  have dT: "distinct (loopIds T)" and dR: "distinct (concat (map loopIds toploops))"
    and disj: "set (loopIds T) \<inter> set (concat (map loopIds toploops)) = {}"
    using Cons.prems(1) by auto
  have cT: "\<forall>L\<in>set (loopIds T). candidateSet fl AAA L = Some []"
    and cR: "\<forall>L\<in>set (concat (map loopIds toploops)). candidateSet fl AAA L = Some []"
    using Cons.prems(2) by auto
  have new: "trees st (loopId T) = None" using Cons.prems(7) by auto
  let ?trees1 = "dm_insert (loopId T) emptyTree (trees st)"
  have tree: "(case ?trees1 (loopId T) of None \<Rightarrow> emptyTree | Some t \<Rightarrow> t) = emptyTree"
    using new by (simp add: dm_insert_def)
  obtain poss' tree' where
    tr: "traverse fl AAA [(None, T)] (possible st, emptyTree) = Some (poss', tree')"
    and pe: "emptyPoss poss'"
    using traverse_top_empty [OF dT cT Cons.prems(6)] by blast
  from traverse_top [OF tr]
  have inv: "treeInv (loopCount T) tree'"
    and rec: "\<forall>L\<in>dom (values tree'). gainRecorded fl AAA poss' tree' L"
    by auto
  from treeInv_findBest [OF inv, of "\<lambda>a b. a + b"] obtain best where
    best: "findBest (loopCount T) tree' (\<lambda>a b. a + b) = Some best"
    and sub: "set best \<subseteq> dom (values tree')"
    by blast
  let ?st1 = "st\<lparr>trees := ?trees1(loopId T \<mapsto> tree'), possible := poss'\<rparr>"
  have "\<forall>L\<in>set best. possible ?st1 L = Some []"
  proof
    fix L assume "L \<in> set best"
    then have "gainRecorded fl AAA poss' tree' L" using sub rec by blast
    then obtain l where "poss' L = Some l" by (auto simp: gainRecorded_def)
    then show "possible ?st1 L = Some []" using pe by (auto simp: emptyPoss_def)
  qed
  then have ex: "expandBest fl AAA best ?st1 = Some ?st1" by (rule expandBest_empty)
  let ?st2 = "?st1\<lparr>bestLoops := dm_insert (loopId T) best (bestLoops ?st1)\<rparr>"
  have step: "firstPhase fl AAA (T # toploops) st = firstPhase fl AAA toploops ?st2"
    using tr best ex by (simp add: Let_def tree del: fun_upd_apply)
  have notin: "loopId T \<notin> loopId ` set toploops"
  proof
    assume "loopId T \<in> loopId ` set toploops"
    then obtain T' where T': "T' \<in> set toploops" "loopId T = loopId T'" by auto
    have "loopId T' \<in> set (concat (map loopIds toploops))"
      using T'(1) loopId_in_loopIds [of T'] by auto
    moreover have "loopId T' \<in> set (loopIds T)" using T'(2) loopId_in_loopIds [of T] by simp
    ultimately show False using disj by blast
  qed
  have dom2: "dom (trees ?st2) \<inter> loopId ` set toploops = {}"
    using Cons.prems(7) notin by (auto simp: dm_insert_def split: option.splits)
  have "\<exists>st'. firstPhase fl AAA toploops ?st2 = Some st' \<and> \<not> changed st' \<and> conds st' = Map.empty \<and>
         emitted st' = [] \<and> (\<forall>T\<in>set toploops. bestLoops st' (loopId T) \<noteq> None) \<and>
         (\<forall>x. bestLoops ?st2 x \<noteq> None \<longrightarrow> bestLoops st' x \<noteq> None)"
  proof (rule Cons.IH [OF dR cR _ _ _ _ dom2])
    show "\<not> changed ?st2" using Cons.prems(3) by simp
    show "conds ?st2 = Map.empty" using Cons.prems(4) by simp
    show "emitted ?st2 = []" using Cons.prems(5) by simp
    show "emptyPoss (possible ?st2)" using pe by simp
  qed
  then obtain st' where st': "firstPhase fl AAA toploops ?st2 = Some st'" "\<not> changed st'"
    "conds st' = Map.empty" "emitted st' = []" "\<forall>T\<in>set toploops. bestLoops st' (loopId T) \<noteq> None"
    "\<forall>x. bestLoops ?st2 x \<noteq> None \<longrightarrow> bestLoops st' x \<noteq> None"
    by blast
  have b2: "bestLoops ?st2 (loopId T) \<noteq> None" by (simp add: dm_insert_def split: option.splits)
  have b3: "bestLoops st x \<noteq> None \<longrightarrow> bestLoops ?st2 x \<noteq> None" for x
    by (simp add: dm_insert_def split: option.splits)
  show ?case using st' b2 b3 unfolding step by auto
qed

text \<open>
  Claim C4, amended. If the candidate set of every loop of the function is empty (the
  loops being different objects), the pass returns the function as it is and reports all
  analyses preserved.
\<close>

theorem run_no_candidates:
  assumes "distinct (concat (map loopIds (getTopLevelLoops AAA)))"
    and "\<forall>L\<in>set (concat (map loopIds (getTopLevelLoops AAA))). candidateSet fl AAA L = Some []"
  shows "run fl AAA F = Some (F, all_preserved)"
proof (cases "\<not> InferSSR fl \<or> SSRFnAttr \<in> fnAttrs F")
  case True
  then show ?thesis by (auto simp: run_def)
next
  case False
  have "\<exists>st'. firstPhase fl AAA (getTopLevelLoops AAA) initState = Some st' \<and> \<not> changed st' \<and>
      conds st' = Map.empty \<and> emitted st' = [] \<and>
      (\<forall>T\<in>set (getTopLevelLoops AAA). bestLoops st' (loopId T) \<noteq> None) \<and>
      (\<forall>x. bestLoops initState x \<noteq> None \<longrightarrow> bestLoops st' x \<noteq> None)"
    by (rule firstPhase_empty [OF assms]) (simp_all add: initState_def emptyPoss_def)
  then obtain st' where st': "firstPhase fl AAA (getTopLevelLoops AAA) initState = Some st'"
    "\<not> changed st'" "conds st' = Map.empty" "emitted st' = []"
    "\<forall>T\<in>set (getTopLevelLoops AAA). bestLoops st' (loopId T) \<noteq> None"
    by blast
  have "secondPhase fl AAA st' (getTopLevelLoops AAA) = Some []"
    by (rule secondPhase_empty [OF st'(3,5)])
  then show ?thesis using False st' by (simp add: run_def)
qed

lemma example_candidateSet_empty: "candidateSet exampleFlags (exampleAAA None []) L = Some []"
  by (simp add: candidateSet_def exampleAAA_def std_sort_def)

theorem run_no_candidates_witness:
  "distinct (concat (map loopIds (getTopLevelLoops (exampleAAA None [])))) \<and>
   candidateSet exampleFlags (exampleAAA None []) 0 = Some [] \<and>
   run exampleFlags (exampleAAA None []) exampleFunction = Some (exampleFunction, all_preserved)"
proof -
  have d: "distinct (concat (map loopIds (getTopLevelLoops (exampleAAA None []))))"
    by (simp add: exampleAAA_def)
  have c: "\<forall>L\<in>set (concat (map loopIds (getTopLevelLoops (exampleAAA None [])))).
      candidateSet exampleFlags (exampleAAA None []) L = Some []"
    by (simp add: example_candidateSet_empty)
  from run_no_candidates [OF d c] d example_candidateSet_empty show ?thesis by simp
qed

lemma example_candidateSet: "candidateSet exampleFlags (exampleAAA (Some 1) [0]) 0 = Some [0]"
  by (simp add: candidateSet_def ex_defs visit_defs)

text \<open>
  Claim C4 as stated fails where it lets a negative gain stand for an empty candidate
  set: the only loop of the example has the candidate set \<open>[0]\<close> with the estimated gain
  -5, and the pass puts the access on a stream and reports no analysis preserved.
\<close>

theorem run_negative_gain_counterexample:
  "map loopIds (getTopLevelLoops (exampleAAA (Some 1) [0])) = [[0]] \<and>
   candidateSet exampleFlags (exampleAAA (Some 1) [0]) 0 = Some [0] \<and>
   getEstGain exampleFlags (exampleAAA (Some 1) [0]) [0] 0 = Some (- 5) \<and>
   sint (- 5 :: i32) < 0 \<and>
   run exampleFlags (exampleAAA (Some 1) [0]) exampleFunction = Some (exampleResult, none_preserved) \<and>
   exampleResult \<noteq> exampleFunction"
  using example_candidateSet example_gain example_run
  by (simp add: exampleAAA_def exampleResult_def exampleFunction_def)

end
